theory Spec2Isabelle
  imports Complex_Main
begin

section \<open>The index recommendation engine of \<^verbatim>\<open>main.py\<close>\<close>

text \<open>
  The development follows \<^verbatim>\<open>main(args)\<close> phase by phase: the workload builder, the
  candidate generator, the cost scorer with its estimate cache, and the greedy selector.
  Scores and estimates are Python numbers in the source; they are taken as real numbers
  here, so rounding is outside the model.
\<close>

subsection \<open>Constants\<close>

definition MAX_INDEX_FIELDS :: nat where
  "MAX_INDEX_FIELDS = 3"

definition IXSCAN_COST :: real where
  "IXSCAN_COST = 0.5"

definition FETCH_COST :: real where
  "FETCH_COST = 10"

definition SORT_COST :: real where
  "SORT_COST = 10"

text \<open>The exceptions that the modelled code can raise.\<close>

datatype py_error = AssertionError string | KeyError | IndexError

subsection \<open>Queries and the workload\<close>

type_synonym field = string

text \<open>A candidate index is a tuple of field names.\<close>

type_synonym candidate = "field list"

text \<open>
  Modelled from the spec: the class \<^verbatim>\<open>Query\<close> of \<^verbatim>\<open>mindexer.utils.query\<close> is not among
  the sources. \<^verbatim>\<open>main\<close> reads and writes its attributes \<^verbatim>\<open>predicates\<close>, \<^verbatim>\<open>limit\<close>,
  \<^verbatim>\<open>sort\<close> and \<^verbatim>\<open>projection\<close>; the spec gives them as an ordered sequence of
  predicates, an optional integer, and optional sequences of field names. The type of a
  predicate is left open. Two queries are equal when these four attributes are.
\<close>

record 'p query =
  predicates :: "'p list"
  limit :: "int option"
  sort_by :: "field list option"
  projection :: "field list option"

text \<open>
  The methods of \<^verbatim>\<open>Query\<close> that \<^verbatim>\<open>main\<close> calls are parameters of the model:
  \<^verbatim>\<open>Query.from_mql\<close> on a filter document of type \<open>'m\<close>, which returns a query or raises,
  the attribute \<^verbatim>\<open>fields\<close> (here \<open>query_fields\<close>), and the four index predicates.
\<close>

record ('p, 'm) query_methods =
  from_mql :: "'m \<Rightarrow> py_error + 'p query"
  query_fields :: "'p query \<Rightarrow> field list"
  index_intersect :: "'p query \<Rightarrow> candidate \<Rightarrow> 'p query"
  is_covered :: "'p query \<Rightarrow> candidate \<Rightarrow> bool"
  is_subset :: "'p query \<Rightarrow> candidate \<Rightarrow> bool"
  can_use_sort :: "'p query \<Rightarrow> candidate \<Rightarrow> bool"

text \<open>
  A command document of \<^verbatim>\<open>system.profile\<close>: the keys \<^verbatim>\<open>"filter"\<close>, \<^verbatim>\<open>"limit"\<close>,
  \<^verbatim>\<open>"sort"\<close> and \<^verbatim>\<open>"projection"\<close>, each present or not. The sort and the projection are
  documents, of which only the keys are read.
\<close>

record 'm command =
  cmd_filter :: "'m option"
  cmd_limit :: "int option"
  cmd_sort :: "(field \<times> int) list option"
  cmd_projection :: "(field \<times> int) list option"

text \<open>
  The body of the \<^verbatim>\<open>try\<close> block, up to the append: \<^verbatim>\<open>doc["filter"]\<close> raises
  \<^verbatim>\<open>KeyError\<close> when the key is missing, and \<^verbatim>\<open>Query.from_mql\<close> may raise.
\<close>

definition extract_query :: "('p, 'm) query_methods \<Rightarrow> 'm command \<Rightarrow> py_error + 'p query" where
  "extract_query Q doc =
     (case cmd_filter doc of
        None \<Rightarrow> Inl KeyError
      | Some flt \<Rightarrow>
          (case from_mql Q flt of
             Inl e \<Rightarrow> Inl e
           | Inr query \<Rightarrow>
               let query1 = (case cmd_limit doc of
                               None \<Rightarrow> query
                             | Some l \<Rightarrow> query\<lparr>limit := Some l\<rparr>);
                   query2 = (case cmd_sort doc of
                               None \<Rightarrow> query1
                             | Some s \<Rightarrow> query1\<lparr>sort_by := Some (map fst s)\<rparr>);
                   query3 = (case cmd_projection doc of
                               None \<Rightarrow> query2
                             | Some p \<Rightarrow> query2\<lparr>projection := Some (map fst p)\<rparr>)
               in Inr query3))"

text \<open>
  The loop over \<^verbatim>\<open>profile_docs\<close>. The state is \<^verbatim>\<open>workload.queries\<close> and the warnings
  printed so far, each with the message of its assertion. Only \<^verbatim>\<open>AssertionError\<close> is
  caught; any other exception ends the run.
\<close>

fun scan_profile ::
  "('p, 'm) query_methods \<Rightarrow> 'm command list \<Rightarrow> 'p query list \<times> string list
     \<Rightarrow> py_error + 'p query list \<times> string list" where
  "scan_profile Q [] st = Inr st"
| "scan_profile Q (doc # docs) st =
     (case extract_query Q doc of
        Inr query \<Rightarrow> scan_profile Q docs (fst st @ [query], snd st)
      | Inl (AssertionError e) \<Rightarrow> scan_profile Q docs (fst st, snd st @ [e])
      | Inl KeyError \<Rightarrow> Inl KeyError
      | Inl IndexError \<Rightarrow> Inl IndexError)"

definition build_workload ::
  "('p, 'm) query_methods \<Rightarrow> 'm command list \<Rightarrow> py_error + 'p query list \<times> string list" where
  "build_workload Q profile_docs = scan_profile Q profile_docs ([], [])"

subsection \<open>Candidate generation\<close>

text \<open>
  \<^verbatim>\<open>itertools.permutations(iterable, r)\<close>: the tuples of \<open>r\<close> elements taken at different
  positions of the input, in the order of the positions.
\<close>

fun permutations :: "'a list \<Rightarrow> nat \<Rightarrow> 'a list list" where
  "permutations xs 0 = [[]]"
| "permutations xs (Suc r) =
     concat (map (\<lambda>i. map (\<lambda>p. xs ! i # p) (permutations (take i xs @ drop (Suc i) xs) r))
               [0..<length xs])"

text \<open>The three nested loops that fill the set \<^verbatim>\<open>candidates\<close>.\<close>

definition add_permutations :: "field list \<Rightarrow> nat \<Rightarrow> candidate set \<Rightarrow> candidate set" where
  "add_permutations fs i candidates =
     fold (\<lambda>candidate cands. insert candidate cands) (permutations fs (i + 1)) candidates"

definition add_query_candidates ::
  "('p, 'm) query_methods \<Rightarrow> 'p query \<Rightarrow> candidate set \<Rightarrow> candidate set" where
  "add_query_candidates Q query candidates =
     (let num_preds = length (query_fields Q query) in
      fold (add_permutations (query_fields Q query)) [0..<min num_preds MAX_INDEX_FIELDS] candidates)"

definition generate_candidates ::
  "('p, 'm) query_methods \<Rightarrow> 'p query list \<Rightarrow> candidate set" where
  "generate_candidates Q workload = fold (add_query_candidates Q) workload {}"

subsection \<open>Score tables\<close>

text \<open>
  A \<^verbatim>\<open>pandas.DataFrame\<close> whose row labels are \<^verbatim>\<open>range(len(workload))\<close>: the column
  labels in order, the number of rows, and the cell stored at a row and a column label.
  Only cells at a row below \<open>nrows\<close> and a label in \<open>columns\<close> belong to the table.
\<close>

record 'c frame =
  columns :: "'c list"
  nrows :: nat
  loc :: "nat \<Rightarrow> 'c \<Rightarrow> real"

text \<open>\<^verbatim>\<open>pd.DataFrame(0, index=range(n), columns=cs)\<close>\<close>

definition DataFrame :: "nat \<Rightarrow> 'c list \<Rightarrow> 'c frame" where
  "DataFrame n cs = \<lparr>columns = cs, nrows = n, loc = (\<lambda>i c. 0)\<rparr>"

text \<open>\<^verbatim>\<open>df.iat[nq, nc] = v\<close>: the cell at row position \<open>nq\<close> and column position \<open>nc\<close>.\<close>

definition iat_set :: "'c frame \<Rightarrow> nat \<Rightarrow> nat \<Rightarrow> real \<Rightarrow> py_error + 'c frame" where
  "iat_set df nq nc v =
     (if nq < nrows df \<and> nc < length (columns df)
      then Inr (df\<lparr>loc := (\<lambda>i c. if i = nq \<and> c = columns df ! nc then v else loc df i c)\<rparr>)
      else Inl IndexError)"

subsection \<open>The estimator and the estimate cache\<close>

text \<open>
  The class \<^verbatim>\<open>SampleEstimator\<close> is not among the sources; its two methods are parameters.
  \<^verbatim>\<open>estimate\<close> may answer differently from call to call, so it reads and returns a state
  of the estimator, of type \<open>'o\<close>.
\<close>

record ('p, 'o) sample_estimator =
  estimate :: "'o \<Rightarrow> 'p query \<Rightarrow> real \<times> 'o"
  get_cardinality :: "'o \<Rightarrow> real"

text \<open>
  The state of a scoring pass: the dictionary \<^verbatim>\<open>estimate_cache\<close>, the estimator, and a
  log of the calls of \<^verbatim>\<open>estimator.estimate\<close> made so far, each with the query asked and
  the answer given. The log is not in the source; it is there to count the calls.
\<close>

record ('p, 'o) scoring_state =
  estimate_cache :: "'p query \<rightharpoonup> real"
  estimator :: 'o
  calls :: "('p query \<times> real) list"

definition get_estimate ::
  "('p, 'o) sample_estimator \<Rightarrow> ('p, 'o) scoring_state \<Rightarrow> 'p query
     \<Rightarrow> real \<times> ('p, 'o) scoring_state" where
  "get_estimate E st query =
     (case estimate_cache st query of
        Some est \<Rightarrow> (est, st)
      | None \<Rightarrow>
          (let r = estimate E (estimator st) query; est = fst r
           in (est, st\<lparr>estimate_cache := (estimate_cache st)(query \<mapsto> est),
                        estimator := snd r,
                        calls := calls st @ [(query, est)]\<rparr>)))"

subsection \<open>Scoring a query against a candidate\<close>

text \<open>
  The estimate for the number of work units:
  \<^verbatim>\<open>if query.limit is not None and query.is_subset(candidate): est = min(query.limit, est)\<close>
\<close>

definition work_units ::
  "('p, 'm) query_methods \<Rightarrow> 'p query \<Rightarrow> candidate \<Rightarrow> real \<Rightarrow> real" where
  "work_units Q query candidate est =
     (case limit query of
        None \<Rightarrow> est
      | Some l \<Rightarrow> if is_subset Q query candidate then min (real_of_int l) est else est)"

text \<open>The score for filtering: lines 120 to 145 of \<^verbatim>\<open>main.py\<close>.\<close>

definition filter_benefit ::
  "('p, 'm) query_methods \<Rightarrow> ('p, 'o) sample_estimator \<Rightarrow> ('p, 'o) scoring_state
     \<Rightarrow> 'p query \<Rightarrow> candidate \<Rightarrow> real \<times> ('p, 'o) scoring_state" where
  "filter_benefit Q E st query candidate =
     (let fetch_query = index_intersect Q query candidate in
      if length (predicates fetch_query) = 0 then (0, st)
      else
        let cost = (if is_covered Q query candidate then IXSCAN_COST else FETCH_COST);
            r = get_estimate E st fetch_query;
            est = work_units Q query candidate (fst r)
        in (get_cardinality E (estimator (snd r)) * 1.0 - est * cost, snd r))"

text \<open>The additional points for sorting: lines 147 to 151.\<close>

definition sort_benefit ::
  "('p, 'm) query_methods \<Rightarrow> ('p, 'o) sample_estimator \<Rightarrow> ('p, 'o) scoring_state
     \<Rightarrow> 'p query \<Rightarrow> candidate \<Rightarrow> real \<Rightarrow> real \<times> ('p, 'o) scoring_state" where
  "sort_benefit Q E st query candidate benefit =
     (if can_use_sort Q query candidate
      then
        let r = get_estimate E st query;
            est = max 1 (fst r)
        in (benefit + est * log 2 est * SORT_COST, snd r)
      else (benefit, st))"

text \<open>The value stored at \<^verbatim>\<open>scores.iat[nq, nc]\<close>, and the state after computing it.\<close>

definition score_pair ::
  "('p, 'm) query_methods \<Rightarrow> ('p, 'o) sample_estimator \<Rightarrow> ('p, 'o) scoring_state
     \<Rightarrow> 'p query \<Rightarrow> candidate \<Rightarrow> real \<times> ('p, 'o) scoring_state" where
  "score_pair Q E st query candidate =
     (let r = filter_benefit Q E st query candidate
      in sort_benefit Q E (snd r) query candidate (fst r))"

subsection \<open>The scoring pass\<close>

text \<open>The loop \<^verbatim>\<open>for nc, candidate in enumerate(candidates)\<close> for the query in row \<open>nq\<close>.\<close>

fun score_row ::
  "('p, 'm) query_methods \<Rightarrow> ('p, 'o) sample_estimator \<Rightarrow> 'p query \<Rightarrow> nat
     \<Rightarrow> (nat \<times> candidate) list \<Rightarrow> candidate frame \<times> ('p, 'o) scoring_state
     \<Rightarrow> py_error + candidate frame \<times> ('p, 'o) scoring_state" where
  "score_row Q E query nq [] acc = Inr acc"
| "score_row Q E query nq (nc_candidate # rest) acc =
     (let r = score_pair Q E (snd acc) query (snd nc_candidate) in
      case iat_set (fst acc) nq (fst nc_candidate) (fst r) of
        Inl e \<Rightarrow> Inl e
      | Inr scores \<Rightarrow> score_row Q E query nq rest (scores, snd r))"

text \<open>The loop \<^verbatim>\<open>for nq, query in enumerate(workload)\<close>.\<close>

fun score_rows ::
  "('p, 'm) query_methods \<Rightarrow> ('p, 'o) sample_estimator \<Rightarrow> candidate list
     \<Rightarrow> (nat \<times> 'p query) list \<Rightarrow> candidate frame \<times> ('p, 'o) scoring_state
     \<Rightarrow> py_error + candidate frame \<times> ('p, 'o) scoring_state" where
  "score_rows Q E cs [] acc = Inr acc"
| "score_rows Q E cs (nq_query # rest) acc =
     (case score_row Q E (snd nq_query) (fst nq_query) (enumerate 0 cs) acc of
        Inl e \<Rightarrow> Inl e
      | Inr acc' \<Rightarrow> score_rows Q E cs rest acc')"

text \<open>
  The scoring pass: an empty cache, a table of zeros with one row for each query and one
  column for each candidate, and the two loops. \<open>cs\<close> is \<^verbatim>\<open>list(candidates)\<close>, the
  candidates in the order in which Python iterates over the set.
\<close>

definition score_candidates ::
  "('p, 'm) query_methods \<Rightarrow> ('p, 'o) sample_estimator \<Rightarrow> 'o \<Rightarrow> 'p query list
     \<Rightarrow> candidate list \<Rightarrow> py_error + candidate frame \<times> ('p, 'o) scoring_state" where
  "score_candidates Q E est0 workload cs =
     score_rows Q E cs (enumerate 0 workload)
       (DataFrame (length workload) cs,
        \<lparr>estimate_cache = Map.empty, estimator = est0, calls = []\<rparr>)"

subsection \<open>Greedy selection\<close>

text \<open>\<^verbatim>\<open>(idx_scores <= 0).values.all()\<close>; true of a table with no rows or no columns.\<close>

definition all_nonpos :: "'c frame \<Rightarrow> bool" where
  "all_nonpos df = list_all (\<lambda>i. list_all (\<lambda>c. loc df i c \<le> 0) (columns df)) [0..<nrows df]"

text \<open>\<^verbatim>\<open>idx_scores.sum(axis=0)\<close>: a series of column label and column sum.\<close>

definition col_sum :: "'c frame \<Rightarrow> 'c \<Rightarrow> real" where
  "col_sum df c = sum_list (map (\<lambda>i. loc df i c) [0..<nrows df])"

definition sum_axis0 :: "'c frame \<Rightarrow> ('c \<times> real) list" where
  "sum_axis0 df = map (\<lambda>c. (c, col_sum df c)) (columns df)"

text \<open>
  \<^verbatim>\<open>.sort_values(ascending=False)\<close>. The order pandas gives to equal sums is not fixed
  by the source; here equal sums keep their column order.
\<close>

definition sort_values_desc :: "('c \<times> real) list \<Rightarrow> ('c \<times> real) list" where
  "sort_values_desc s = sort_key (\<lambda>p. - snd p) s"

text \<open>\<^verbatim>\<open>topscore.index[0]\<close>\<close>

definition index0 :: "('c \<times> real) list \<Rightarrow> py_error + 'c" where
  "index0 s = (case s of [] \<Rightarrow> Inl IndexError | p # _ \<Rightarrow> Inr (fst p))"

text \<open>\<^verbatim>\<open>idx_scores.drop(idx, axis="columns", inplace=True)\<close>\<close>

definition drop_column :: "'c \<Rightarrow> 'c frame \<Rightarrow> py_error + 'c frame" where
  "drop_column idx df =
     (if idx \<in> set (columns df)
      then Inr (df\<lparr>columns := filter (\<lambda>c. c \<noteq> idx) (columns df)\<rparr>)
      else Inl KeyError)"

text \<open>
  \<^verbatim>\<open>[s for s in scores[estimator_indexes].iloc[qi].tolist() if s != 0]\<close>
\<close>

definition existing_scores :: "'c frame \<Rightarrow> 'c list \<Rightarrow> nat \<Rightarrow> real list" where
  "existing_scores scores estimator_indexes qi =
     filter (\<lambda>s. s \<noteq> 0) (map (loc scores qi) estimator_indexes)"

text \<open>
  Lines 206 to 209: \<^verbatim>\<open>idx_scores.loc[qi, columns] = scores.loc[qi, columns].subtract(...)\<close>
  writes the row of the static table, less \<open>best_existing\<close>, into the working table.
\<close>

definition subtract_best :: "'c frame \<Rightarrow> real \<Rightarrow> nat \<Rightarrow> 'c frame \<Rightarrow> 'c frame" where
  "subtract_best scores best_existing qi idx_scores =
     idx_scores\<lparr>loc := (\<lambda>i c.
       if i = qi \<and> c \<in> set (columns idx_scores) then loc scores qi c - best_existing
       else loc idx_scores i c)\<rparr>"

text \<open>
  Line 213, \<^verbatim>\<open>idx_scores.iloc[qi].mask(idx_scores.iloc[qi] < 0, 0, inplace=True)\<close>, sets
  the negative values to 0 in the series that \<^verbatim>\<open>idx_scores.iloc[qi]\<close> returns, not in
  the table. The table changes only if pandas hands out that series as a view of the
  data of the table. It is a copy when the columns of the table differ in dtype, which
  is the case once one column of the integer table of line 110 has received a fractional
  score, and it is always a copy under copy-on-write. The source does not decide which
  of the two happens: \<open>view df qi\<close> says whether row \<open>qi\<close> of the table \<open>df\<close> is handed out
  as a view.
\<close>

type_synonym 'c row_view = "'c frame \<Rightarrow> nat \<Rightarrow> bool"

definition mask_negative :: "'c row_view \<Rightarrow> nat \<Rightarrow> 'c frame \<Rightarrow> 'c frame" where
  "mask_negative view qi idx_scores =
     (if view idx_scores qi
      then idx_scores\<lparr>loc := (\<lambda>i c.
             if i = qi \<and> c \<in> set (columns idx_scores) \<and> loc idx_scores qi c < 0 then 0
             else loc idx_scores i c)\<rparr>
      else idx_scores)"

text \<open>The body of the loop \<^verbatim>\<open>for qi, query in enumerate(workload)\<close>, lines 195 to 213.\<close>

definition update_row ::
  "'c row_view \<Rightarrow> 'c frame \<Rightarrow> 'c list \<Rightarrow> nat \<Rightarrow> 'c frame \<Rightarrow> 'c frame" where
  "update_row view scores estimator_indexes qi idx_scores =
     (let existing = existing_scores scores estimator_indexes qi in
      if length existing = 0 then idx_scores
      else
        let best_existing = Max (set existing)
        in mask_negative view qi (subtract_best scores best_existing qi idx_scores))"

definition update_scores ::
  "'c row_view \<Rightarrow> 'c frame \<Rightarrow> 'c list \<Rightarrow> 'c frame \<Rightarrow> 'c frame" where
  "update_scores view scores estimator_indexes idx_scores =
     fold (update_row view scores estimator_indexes) [0..<nrows scores] idx_scores"

text \<open>
  One pass through the body of \<^verbatim>\<open>for i in range(len(candidates))\<close>: \<open>Inr None\<close> is the
  \<^verbatim>\<open>break\<close>, \<open>Inr (Some (W, R))\<close> the working table and the list of chosen indexes
  after the pass.
\<close>

definition iteration ::
  "'c row_view \<Rightarrow> 'c frame \<Rightarrow> 'c frame \<times> 'c list
     \<Rightarrow> py_error + ('c frame \<times> 'c list) option" where
  "iteration view scores st =
     (let idx_scores = fst st; estimator_indexes = snd st in
      if all_nonpos idx_scores then Inr None
      else
        case index0 (sort_values_desc (sum_axis0 idx_scores)) of
          Inl e \<Rightarrow> Inl e
        | Inr idx \<Rightarrow>
            (case drop_column idx idx_scores of
               Inl e \<Rightarrow> Inl e
             | Inr dropped \<Rightarrow>
                 let chosen = estimator_indexes @ [idx]
                 in Inr (Some (update_scores view scores chosen dropped, chosen))))"

fun greedy_loop ::
  "'c row_view \<Rightarrow> nat \<Rightarrow> 'c frame \<Rightarrow> 'c frame \<times> 'c list \<Rightarrow> py_error + 'c list" where
  "greedy_loop view 0 scores st = Inr (snd st)"
| "greedy_loop view (Suc n) scores st =
     (case iteration view scores st of
        Inl e \<Rightarrow> Inl e
      | Inr None \<Rightarrow> Inr (snd st)
      | Inr (Some st') \<Rightarrow> greedy_loop view n scores st')"

text \<open>
  \<^verbatim>\<open>estimator_indexes = []; idx_scores = scores.copy()\<close> and the loop, which runs
  \<^verbatim>\<open>len(candidates)\<close> times at most; the columns of \<open>scores\<close> are \<^verbatim>\<open>list(candidates)\<close>.
\<close>

definition select_indexes :: "'c row_view \<Rightarrow> 'c frame \<Rightarrow> py_error + 'c list" where
  "select_indexes view scores =
     greedy_loop view (length (columns scores)) scores (scores, [])"

subsection \<open>Example score tables\<close>

text \<open>
  Two queries and the candidates \<open>(a,)\<close> and \<open>(b,)\<close>: the first query gains 5 from \<open>(a,)\<close>
  and nothing from \<open>(b,)\<close>; the second gains nothing from \<open>(a,)\<close> and loses 5 with \<open>(b,)\<close>.
\<close>

definition scores_neg :: "string list frame" where
  "scores_neg =
     \<lparr>columns = [[''a''], [''b'']], nrows = 2,
      loc = (\<lambda>i c. if i = 0 \<and> c = [''a''] then 5
                    else if i = 1 \<and> c = [''b''] then - 5 else 0)\<rparr>"

text \<open>
  Two queries and the candidates \<open>(a,)\<close>, \<open>(b,)\<close> and \<open>(a, b)\<close>, with the rows
  \<open>50, 0, 90\<close> and \<open>0, 70, 0\<close>.
\<close>

definition scores_two :: "string list frame" where
  "scores_two =
     \<lparr>columns = [[''a''], [''b''], [''a'', ''b'']], nrows = 2,
      loc = (\<lambda>i c. if i = 0 \<and> c = [''a''] then 50
                    else if i = 0 \<and> c = [''a'', ''b''] then 90
                    else if i = 1 \<and> c = [''b''] then 70 else 0)\<rparr>"

text \<open>
  The same table with \<open>50.5\<close> for \<open>50\<close>: the column \<open>(a,)\<close> holds a fractional score,
  the other two columns whole numbers.
\<close>

definition scores_frac :: "string list frame" where
  "scores_frac =
     \<lparr>columns = [[''a''], [''b''], [''a'', ''b'']], nrows = 2,
      loc = (\<lambda>i c. if i = 0 \<and> c = [''a''] then 50.5
                    else if i = 0 \<and> c = [''a'', ''b''] then 90
                    else if i = 1 \<and> c = [''b''] then 70 else 0)\<rparr>"

text \<open>The two answers of pandas for every row: always a view, and always a copy.\<close>

definition always_view :: "'c row_view" where
  "always_view = (\<lambda>df qi. True)"

definition always_copy :: "'c row_view" where
  "always_copy = (\<lambda>df qi. False)"

subsection \<open>A query class and an estimator for examples\<close>

text \<open>
  The examples need a query class. Its source is missing, so the one below follows the
  spec; it is used at concrete inputs only, and every general statement is about an
  arbitrary \<open>query_methods\<close>.
\<close>

datatype kind = Equality | Range

type_synonym predicate = "field \<times> kind"

datatype condition = IsEqual | InRange | Unsupported

type_synonym mql = "(field \<times> condition) list"

text \<open>
  Modelled from the spec: \<^verbatim>\<open>Query.from_mql\<close> is missing. A filter document with an
  unsupported shape is a validation failure; any other gives one predicate for each of
  its conditions, and no limit, sort or projection.
\<close>

definition spec_from_mql :: "mql \<Rightarrow> py_error + predicate query" where
  "spec_from_mql flt =
     (if list_ex (\<lambda>fc. snd fc = Unsupported) flt
      then Inl (AssertionError ''unsupported filter'')
      else Inr \<lparr>predicates = map (\<lambda>fc. (fst fc, if snd fc = IsEqual then Equality else Range)) flt,
                limit = None, sort_by = None, projection = None\<rparr>)"

text \<open>
  Modelled from the spec: the attribute \<^verbatim>\<open>fields\<close> is missing. It is the set of field
  names referenced by the predicates.
\<close>

definition spec_fields :: "predicate query \<Rightarrow> field list" where
  "spec_fields query = remdups (map fst (predicates query))"

text \<open>
  Modelled from the spec: \<^verbatim>\<open>index_intersect\<close> is missing. The predicates on the longest
  prefix of the candidate that the query matches: a field with an equality predicate
  continues the prefix, a field matched by range predicates only is its last position,
  and a field without a predicate ends it.
\<close>

fun matched_prefix :: "predicate list \<Rightarrow> candidate \<Rightarrow> predicate list" where
  "matched_prefix ps [] = []"
| "matched_prefix ps (f # k) =
     (let here = filter (\<lambda>p. fst p = f) ps in
      if here = [] then []
      else if list_ex (\<lambda>p. snd p = Equality) here then here @ matched_prefix ps k
      else here)"

definition spec_index_intersect :: "predicate query \<Rightarrow> candidate \<Rightarrow> predicate query" where
  "spec_index_intersect query k =
     \<lparr>predicates = matched_prefix (predicates query) k,
      limit = None, sort_by = None, projection = None\<rparr>"

text \<open>
  Modelled from the spec: \<^verbatim>\<open>is_covered\<close> is missing. Every field needed to answer the
  query is in the candidate: the predicate fields, the sort fields and the projection
  fields; without a projection all fields are needed, and no candidate covers.
\<close>

definition spec_is_covered :: "predicate query \<Rightarrow> candidate \<Rightarrow> bool" where
  "spec_is_covered query k =
     (case projection query of
        None \<Rightarrow> False
      | Some proj \<Rightarrow>
          proj \<noteq> [] \<and>
          list_all (\<lambda>f. f \<in> set k)
            (spec_fields query @ (case sort_by query of None \<Rightarrow> [] | Some s \<Rightarrow> s) @ proj))"

text \<open>
  Modelled from the spec: \<^verbatim>\<open>is_subset\<close> is missing. Every predicate field of the query
  is in the candidate.
\<close>

definition spec_is_subset :: "predicate query \<Rightarrow> candidate \<Rightarrow> bool" where
  "spec_is_subset query k = list_all (\<lambda>f. f \<in> set k) (spec_fields query)"

text \<open>
  Modelled from the spec: \<^verbatim>\<open>can_use_sort\<close> is missing. After the prefix of the candidate
  on which the query has equality predicates, the rest of the candidate is the sort of
  the query, forward or reversed. A query without a sort cannot use one.
\<close>

definition spec_can_use_sort :: "predicate query \<Rightarrow> candidate \<Rightarrow> bool" where
  "spec_can_use_sort query k =
     (case sort_by query of
        None \<Rightarrow> False
      | Some s \<Rightarrow>
          (let rest = dropWhile (\<lambda>f. (f, Equality) \<in> set (predicates query)) k
           in s \<noteq> [] \<and> (rest = s \<or> rest = rev s)))"

definition spec_query :: "(predicate, mql) query_methods" where
  "spec_query =
     \<lparr>from_mql = spec_from_mql, query_fields = spec_fields,
      index_intersect = spec_index_intersect, is_covered = spec_is_covered,
      is_subset = spec_is_subset, can_use_sort = spec_can_use_sort\<rparr>"

text \<open>
  An estimator for examples: a collection of 1000 documents, and an estimate that
  doubles with every call, 4 the first time, whatever the query. Its state counts the
  calls.
\<close>

definition doubling_estimator :: "(predicate, nat) sample_estimator" where
  "doubling_estimator =
     \<lparr>estimate = (\<lambda>n query. (4 * 2 ^ n, Suc n)), get_cardinality = (\<lambda>n. 1000)\<rparr>"

text \<open>
  Three profiled commands: \<^verbatim>\<open>{filter: {a: 1}, sort: {b: 1}}\<close>, one with an unsupported
  filter on \<open>c\<close>, and \<^verbatim>\<open>{filter: {b: 1}, limit: 2}\<close>; and the two queries of the valid ones.
\<close>

definition profile_docs :: "mql command list" where
  "profile_docs =
     [\<lparr>cmd_filter = Some [(''a'', IsEqual)], cmd_limit = None,
       cmd_sort = Some [(''b'', 1)], cmd_projection = None\<rparr>,
      \<lparr>cmd_filter = Some [(''c'', Unsupported)], cmd_limit = None,
       cmd_sort = None, cmd_projection = None\<rparr>,
      \<lparr>cmd_filter = Some [(''b'', IsEqual)], cmd_limit = Some 2,
       cmd_sort = None, cmd_projection = None\<rparr>]"

definition query_a_sort_b :: "predicate query" where
  "query_a_sort_b =
     \<lparr>predicates = [(''a'', Equality)], limit = None, sort_by = Some [''b''],
      projection = None\<rparr>"

definition query_b_limit :: "predicate query" where
  "query_b_limit =
     \<lparr>predicates = [(''b'', Equality)], limit = Some 2, sort_by = None, projection = None\<rparr>"

text \<open>A query on \<open>b\<close> that asks for the field \<open>b\<close> only.\<close>

definition query_b_projected :: "predicate query" where
  "query_b_projected =
     \<lparr>predicates = [(''b'', Equality)], limit = None, sort_by = None,
      projection = Some [''b'']\<rparr>"

text \<open>The state in which a scoring pass starts, for the example estimator.\<close>

definition fresh_state :: "(predicate, nat) scoring_state" where
  "fresh_state = \<lparr>estimate_cache = Map.empty, estimator = 0, calls = []\<rparr>"

text \<open>
  A collection of 15 documents with an estimator that answers 1, 2, 3 and so on, and
  two queries with one equality predicate each, on \<open>a\<close> and on \<open>b\<close>.
\<close>

definition counting_estimator :: "(predicate, nat) sample_estimator" where
  "counting_estimator =
     \<lparr>estimate = (\<lambda>n query. (1 + real n, Suc n)), get_cardinality = (\<lambda>n. 15)\<rparr>"

definition query_a :: "predicate query" where
  "query_a =
     \<lparr>predicates = [(''a'', Equality)], limit = None, sort_by = None, projection = None\<rparr>"

definition query_b :: "predicate query" where
  "query_b =
     \<lparr>predicates = [(''b'', Equality)], limit = None, sort_by = None, projection = None\<rparr>"

text \<open>
  A query with equality predicates on \<open>a\<close> and \<open>b\<close>, and one with equality predicates on
  the four fields \<open>a\<close>, \<open>b\<close>, \<open>c\<close> and \<open>d\<close>.
\<close>

definition query_ab :: "predicate query" where
  "query_ab =
     \<lparr>predicates = [(''a'', Equality), (''b'', Equality)], limit = None, sort_by = None,
      projection = None\<rparr>"

definition query_abcd :: "predicate query" where
  "query_abcd =
     \<lparr>predicates = [(''a'', Equality), (''b'', Equality), (''c'', Equality), (''d'', Equality)],
      limit = None, sort_by = None, projection = None\<rparr>"

section \<open>Properties\<close>

subsection \<open>The workload builder\<close>

lemma extract_query_Inl:
  "extract_query Q doc = Inl e \<longleftrightarrow>
     (cmd_filter doc = None \<and> e = KeyError)
     \<or> (\<exists>flt. cmd_filter doc = Some flt \<and> from_mql Q flt = Inl e)"
  by (auto simp add: extract_query_def Let_def split: option.splits sum.splits)

lemma extract_query_Inr:
  "(\<exists>query. extract_query Q doc = Inr query) \<longleftrightarrow>
     (\<exists>flt q. cmd_filter doc = Some flt \<and> from_mql Q flt = Inr q)"
  by (auto simp add: extract_query_def Let_def split: option.splits sum.splits)

lemma scan_profile_acc:
  assumes "\<forall>doc \<in> set docs. \<forall>e. extract_query Q doc = Inl e \<longrightarrow> (\<exists>m. e = AssertionError m)"
  shows "scan_profile Q docs (qs, ws) =
           Inr (qs @ concat (map (\<lambda>doc. case extract_query Q doc of
                                          Inr query \<Rightarrow> [query] | Inl e \<Rightarrow> []) docs),
                ws @ concat (map (\<lambda>doc. case extract_query Q doc of
                                          Inl (AssertionError m) \<Rightarrow> [m] | _ \<Rightarrow> []) docs))"
  using assms
proof (induction docs arbitrary: qs ws)
  case Nil
  then show ?case by simp
next
  case (Cons doc docs)
  show ?case
  proof (cases "extract_query Q doc")
    case (Inr query)
    with Cons show ?thesis by simp
  next
    case (Inl e)
    with Cons.prems obtain m where "e = AssertionError m" by auto
    with Inl Cons show ?thesis by simp
  qed
qed

lemma length_appended:
  "length (concat (map (\<lambda>doc. case extract_query Q doc of
                               Inr query \<Rightarrow> [query] | Inl e \<Rightarrow> []) docs)) =
   length (filter (\<lambda>doc. \<exists>flt q. cmd_filter doc = Some flt \<and> from_mql Q flt = Inr q) docs)"
proof (induction docs)
  case Nil
  then show ?case by simp
next
  case (Cons doc docs)
  show ?case
  proof (cases "extract_query Q doc")
    case (Inr query)
    then have "\<exists>flt q. cmd_filter doc = Some flt \<and> from_mql Q flt = Inr q"
      using extract_query_Inr [of Q doc] by blast
    with Inr Cons show ?thesis by simp
  next
    case (Inl e)
    then have "\<not> (\<exists>flt q. cmd_filter doc = Some flt \<and> from_mql Q flt = Inr q)"
      using extract_query_Inr [of Q doc] by auto
    with Inl Cons show ?thesis by simp
  qed
qed

lemma length_warned:
  "length (concat (map (\<lambda>doc. case extract_query Q doc of
                               Inl (AssertionError m) \<Rightarrow> [m] | _ \<Rightarrow> []) docs)) =
   length (filter (\<lambda>doc. \<exists>flt m. cmd_filter doc = Some flt
                            \<and> from_mql Q flt = Inl (AssertionError m)) docs)"
proof (induction docs)
  case Nil
  then show ?case by simp
next
  case (Cons doc docs)
  show ?case
  proof (cases "\<exists>m. extract_query Q doc = Inl (AssertionError m)")
    case True
    then obtain m where m: "extract_query Q doc = Inl (AssertionError m)" by blast
    then have "\<exists>flt m. cmd_filter doc = Some flt \<and> from_mql Q flt = Inl (AssertionError m)"
      using extract_query_Inl [of Q doc "AssertionError m"] by auto
    with m Cons show ?thesis by simp
  next
    case False
    then have "\<not> (\<exists>flt m. cmd_filter doc = Some flt \<and> from_mql Q flt = Inl (AssertionError m))"
      using extract_query_Inl [of Q doc] by blast
    moreover from False
    have "(case extract_query Q doc of Inl (AssertionError m) \<Rightarrow> [m] | _ \<Rightarrow> []) = []"
      by (auto split: sum.splits py_error.splits)
    ultimately show ?thesis using Cons by simp
  qed
qed

text \<open>
  Claim C10. When every profiled command has a filter document and \<^verbatim>\<open>Query.from_mql\<close>
  either returns a query or raises \<^verbatim>\<open>AssertionError\<close>, the builder returns: the workload
  holds, in input order, the queries of the commands whose construction succeeded and
  nothing else, so its length is their number; every failed command is skipped with one
  warning and the commands after it are still processed.
\<close>

theorem build_workload_skips_invalid:
  assumes "\<forall>doc \<in> set docs. \<exists>flt. cmd_filter doc = Some flt
             \<and> (\<forall>e. from_mql Q flt = Inl e \<longrightarrow> (\<exists>m. e = AssertionError m))"
  shows "\<exists>queries warnings. build_workload Q docs = Inr (queries, warnings)
     \<and> queries = concat (map (\<lambda>doc. case extract_query Q doc of
                                       Inr query \<Rightarrow> [query] | Inl e \<Rightarrow> []) docs)
     \<and> length queries =
         length (filter (\<lambda>doc. \<exists>flt q. cmd_filter doc = Some flt
                                  \<and> from_mql Q flt = Inr q) docs)
     \<and> length warnings =
         length (filter (\<lambda>doc. \<exists>flt m. cmd_filter doc = Some flt
                                  \<and> from_mql Q flt = Inl (AssertionError m)) docs)"
proof -
  have "\<forall>doc \<in> set docs. \<forall>e. extract_query Q doc = Inl e \<longrightarrow> (\<exists>m. e = AssertionError m)"
  proof (intro ballI allI impI)
    fix doc e assume doc: "doc \<in> set docs" and e: "extract_query Q doc = Inl e"
    from assms doc obtain flt where flt: "cmd_filter doc = Some flt"
      "\<forall>e. from_mql Q flt = Inl e \<longrightarrow> (\<exists>m. e = AssertionError m)" by blast
    from e flt(1) have "from_mql Q flt = Inl e" by (simp add: extract_query_Inl)
    with flt(2) show "\<exists>m. e = AssertionError m" by blast
  qed
  from scan_profile_acc [OF this, of "[]" "[]"] show ?thesis
    by (simp add: build_workload_def length_appended length_warned)
qed

lemmas example_eval =
  spec_query_def spec_from_mql_def spec_fields_def spec_index_intersect_def
  spec_is_covered_def spec_is_subset_def spec_can_use_sort_def doubling_estimator_def
  profile_docs_def query_a_sort_b_def query_b_limit_def query_b_projected_def fresh_state_def
  counting_estimator_def query_a_def query_b_def query_ab_def query_abcd_def

theorem build_workload_skips_invalid_witness:
  "build_workload spec_query profile_docs =
     Inr ([query_a_sort_b, query_b_limit], [''unsupported filter''])
   \<and> length (filter (\<lambda>doc. \<exists>flt q. cmd_filter doc = Some flt
                              \<and> from_mql spec_query flt = Inr q) profile_docs) = 2"
proof -
  have b: "build_workload spec_query profile_docs =
     Inr ([query_a_sort_b, query_b_limit], [''unsupported filter''])"
    by (simp add: build_workload_def extract_query_def example_eval)
  have "\<forall>doc \<in> set profile_docs. \<exists>flt. cmd_filter doc = Some flt
             \<and> (\<forall>e. from_mql spec_query flt = Inl e \<longrightarrow> (\<exists>m. e = AssertionError m))"
    by (simp add: example_eval)
  from build_workload_skips_invalid [OF this] b show ?thesis by auto
qed

subsection \<open>The candidate generator\<close>

lemma set_remove_nth:
  assumes "distinct xs" "i < length xs"
  shows "set (take i xs @ drop (Suc i) xs) = set xs - {xs ! i}"
    and "distinct (take i xs @ drop (Suc i) xs)"
proof -
  have xs: "xs = take i xs @ xs ! i # drop (Suc i) xs"
    using assms(2) by (simp add: id_take_nth_drop)
  have d: "distinct (take i xs @ xs ! i # drop (Suc i) xs)" using assms(1) xs by simp
  then show "distinct (take i xs @ drop (Suc i) xs)" by auto
  have "set xs = set (take i xs @ xs ! i # drop (Suc i) xs)" using xs by simp
  also have "\<dots> = insert (xs ! i) (set (take i xs @ drop (Suc i) xs))" by simp
  finally have "set xs = insert (xs ! i) (set (take i xs @ drop (Suc i) xs))" .
  moreover have "xs ! i \<notin> set (take i xs @ drop (Suc i) xs)" using d by auto
  ultimately show "set (take i xs @ drop (Suc i) xs) = set xs - {xs ! i}" by auto
qed

lemma set_permutations:
  "distinct xs \<Longrightarrow> set (permutations xs r) = {p. length p = r \<and> distinct p \<and> set p \<subseteq> set xs}"
proof (induction r arbitrary: xs)
  case 0
  then show ?case by auto
next
  case (Suc r)
  have IH: "\<And>i. i < length xs \<Longrightarrow> set (permutations (take i xs @ drop (Suc i) xs) r) =
      {p. length p = r \<and> distinct p \<and> set p \<subseteq> set xs - {xs ! i}}"
    using Suc.IH Suc.prems set_remove_nth by metis
  show ?case
  proof (rule set_eqI, rule iffI)
    fix p assume "p \<in> set (permutations xs (Suc r))"
    then obtain i q where i: "i < length xs" and p: "p = xs ! i # q"
      and q: "q \<in> set (permutations (take i xs @ drop (Suc i) xs) r)"
      by auto
    from q IH [OF i] have "length q = r" "distinct q" "set q \<subseteq> set xs - {xs ! i}" by auto
    with p i show "p \<in> {p. length p = Suc r \<and> distinct p \<and> set p \<subseteq> set xs}" by auto
  next
    fix p assume "p \<in> {p. length p = Suc r \<and> distinct p \<and> set p \<subseteq> set xs}"
    then have l: "length p = Suc r" and d: "distinct p" and s: "set p \<subseteq> set xs" by auto
    from l obtain x q where p: "p = x # q" by (cases p) auto
    with s have "x \<in> set xs" by simp
    then obtain i where i: "i < length xs" "xs ! i = x" by (auto simp add: in_set_conv_nth)
    have "q \<in> {p. length p = r \<and> distinct p \<and> set p \<subseteq> set xs - {xs ! i}}"
      using l d s p i by auto
    with IH [OF i(1)] have "q \<in> set (permutations (take i xs @ drop (Suc i) xs) r)" by simp
    with i p show "p \<in> set (permutations xs (Suc r))" by auto
  qed
qed

lemma fold_insert_set: "fold (\<lambda>x B. insert x B) xs A = set xs \<union> A"
  by (induction xs arbitrary: A) auto

lemma add_permutations_eq: "add_permutations fs i A = set (permutations fs (i + 1)) \<union> A"
  unfolding add_permutations_def by (rule fold_insert_set)

lemma fold_add_permutations:
  "fold (add_permutations fs) is A = (\<Union>i \<in> set is. set (permutations fs (i + 1))) \<union> A"
  by (induction "is" arbitrary: A) (auto simp add: add_permutations_eq)

lemma add_query_candidates_eq:
  "add_query_candidates Q query A =
     (\<Union>i \<in> {0..<min (length (query_fields Q query)) MAX_INDEX_FIELDS}.
        set (permutations (query_fields Q query) (i + 1))) \<union> A"
  by (simp add: add_query_candidates_def Let_def fold_add_permutations)

lemma fold_add_query_candidates:
  "fold (add_query_candidates Q) workload A =
     (\<Union>query \<in> set workload.
        \<Union>i \<in> {0..<min (length (query_fields Q query)) MAX_INDEX_FIELDS}.
          set (permutations (query_fields Q query) (i + 1))) \<union> A"
  by (induction workload arbitrary: A) (auto simp add: add_query_candidates_eq)

lemma generate_candidates_eq:
  "generate_candidates Q workload =
     (\<Union>query \<in> set workload.
        \<Union>i \<in> {1..min (length (query_fields Q query)) MAX_INDEX_FIELDS}.
          set (permutations (query_fields Q query) i))"
proof -
  have shift: "(\<Union>i \<in> {0..<n}. f (i + 1)) = (\<Union>i \<in> {1..n}. f i)"
    for n :: nat and f :: "nat \<Rightarrow> candidate set"
  proof (intro set_eqI iffI)
    fix x assume "x \<in> (\<Union>i \<in> {0..<n}. f (i + 1))"
    then obtain i where "i < n" "x \<in> f (i + 1)" by auto
    moreover from this have "i + 1 \<in> {1..n}" by simp
    ultimately show "x \<in> (\<Union>i \<in> {1..n}. f i)" by blast
  next
    fix x assume "x \<in> (\<Union>i \<in> {1..n}. f i)"
    then obtain i where i: "1 \<le> i" "i \<le> n" "x \<in> f i" by auto
    then have "i - 1 \<in> {0..<n}" "f ((i - 1) + 1) = f i" by auto
    with i(3) show "x \<in> (\<Union>i \<in> {0..<n}. f (i + 1))" by blast
  qed
  have "generate_candidates Q workload =
     (\<Union>query \<in> set workload.
        \<Union>i \<in> {0..<min (length (query_fields Q query)) MAX_INDEX_FIELDS}.
          set (permutations (query_fields Q query) (i + 1)))"
    by (simp add: generate_candidates_def fold_add_query_candidates)
  also have "\<dots> = (\<Union>query \<in> set workload.
        \<Union>i \<in> {1..min (length (query_fields Q query)) MAX_INDEX_FIELDS}.
          set (permutations (query_fields Q query) i))"
  proof (rule SUP_cong [OF refl])
    fix query
    show "(\<Union>i \<in> {0..<min (length (query_fields Q query)) MAX_INDEX_FIELDS}.
             set (permutations (query_fields Q query) (i + 1))) =
          (\<Union>i \<in> {1..min (length (query_fields Q query)) MAX_INDEX_FIELDS}.
             set (permutations (query_fields Q query) i))"
      by (rule shift [where f = "\<lambda>i. set (permutations (query_fields Q query) i)"])
  qed
  finally show ?thesis .
qed

text \<open>
  Claim C8. The candidate set is the union, over the queries of the workload and the
  sizes \<open>i\<close> from 1 to \<open>min (|fields|) MAX_INDEX_FIELDS\<close>, of the permutations of size \<open>i\<close>
  of the fields of the query. When the fields of each query are distinct names (the spec
  has them as a set), the permutations of size \<open>i\<close> are the sequences of \<open>i\<close> distinct
  fields of the query, and every candidate is a non-empty sequence of at most 3 distinct
  field names.
\<close>

theorem candidates_are_bounded_permutations:
  assumes "\<forall>query \<in> set workload. distinct (query_fields Q query)"
  shows "generate_candidates Q workload =
           (\<Union>query \<in> set workload.
              \<Union>i \<in> {1..min (length (query_fields Q query)) MAX_INDEX_FIELDS}.
                set (permutations (query_fields Q query) i))
     \<and> (\<forall>query \<in> set workload. \<forall>i.
           set (permutations (query_fields Q query) i) =
             {c. length c = i \<and> distinct c \<and> set c \<subseteq> set (query_fields Q query)})
     \<and> (\<forall>c \<in> generate_candidates Q workload. c \<noteq> [] \<and> length c \<le> 3 \<and> distinct c)"
proof (intro conjI)
  show "generate_candidates Q workload =
           (\<Union>query \<in> set workload.
              \<Union>i \<in> {1..min (length (query_fields Q query)) MAX_INDEX_FIELDS}.
                set (permutations (query_fields Q query) i))"
    by (rule generate_candidates_eq)
  show perms: "\<forall>query \<in> set workload. \<forall>i.
           set (permutations (query_fields Q query) i) =
             {c. length c = i \<and> distinct c \<and> set c \<subseteq> set (query_fields Q query)}"
    using assms by (simp add: set_permutations)
  show "\<forall>c \<in> generate_candidates Q workload. c \<noteq> [] \<and> length c \<le> 3 \<and> distinct c"
  proof
    fix c assume "c \<in> generate_candidates Q workload"
    then obtain query i where q: "query \<in> set workload"
      and i: "1 \<le> i" "i \<le> min (length (query_fields Q query)) MAX_INDEX_FIELDS"
      and c: "c \<in> set (permutations (query_fields Q query) i)"
      by (auto simp add: generate_candidates_eq)
    from c q perms have "length c = i" "distinct c" by auto
    with i show "c \<noteq> [] \<and> length c \<le> 3 \<and> distinct c"
      by (auto simp add: MAX_INDEX_FIELDS_def)
  qed
qed

theorem candidates_are_bounded_permutations_witness:
  "generate_candidates spec_query [query_ab, query_b_limit] =
     {[''a''], [''b''], [''a'', ''b''], [''b'', ''a'']}
   \<and> [''c'', ''a'', ''d''] \<in> generate_candidates spec_query [query_b_limit, query_abcd]
   \<and> [''d'', ''b''] \<in> generate_candidates spec_query [query_b_limit, query_abcd]
   \<and> [''a'', ''b'', ''c'', ''d''] \<notin> generate_candidates spec_query [query_b_limit, query_abcd]
   \<and> [''a'', ''a''] \<notin> generate_candidates spec_query [query_b_limit, query_abcd]
   \<and> [] \<notin> generate_candidates spec_query [query_b_limit, query_abcd]"
proof -
  let ?C = "generate_candidates spec_query [query_b_limit, query_abcd]"
  have g: "generate_candidates spec_query [query_ab, query_b_limit] =
     {[''a''], [''b''], [''a'', ''b''], [''b'', ''a'']}"
    by (simp add: generate_candidates_def add_query_candidates_def add_permutations_def
        example_eval MAX_INDEX_FIELDS_def upt_rec) auto
  have d: "\<forall>query \<in> set [query_b_limit, query_abcd]. distinct (query_fields spec_query query)"
    by (simp add: example_eval)
  note t = candidates_are_bounded_permutations [OF d]
  have f: "query_fields spec_query query_abcd = [''a'', ''b'', ''c'', ''d'']"
    by (simp add: example_eval)
  have q: "query_abcd \<in> set [query_b_limit, query_abcd]" by simp
  from t have eq: "?C = (\<Union>query \<in> set [query_b_limit, query_abcd].
              \<Union>i \<in> {1..min (length (query_fields spec_query query)) MAX_INDEX_FIELDS}.
                set (permutations (query_fields spec_query query) i))"
    by (rule conjunct1)
  from t have "\<forall>query \<in> set [query_b_limit, query_abcd]. \<forall>i.
           set (permutations (query_fields spec_query query) i) =
             {c. length c = i \<and> distinct c \<and> set c \<subseteq> set (query_fields spec_query query)}"
    by (rule conjunct1 [OF conjunct2])
  from bspec [OF this q] have perms: "set (permutations [''a'', ''b'', ''c'', ''d''] i) =
             {c. length c = i \<and> distinct c \<and> set c \<subseteq> set [''a'', ''b'', ''c'', ''d'']}" for i
    unfolding f by (rule spec)
  from t have bound: "\<forall>c \<in> ?C. c \<noteq> [] \<and> length c \<le> 3 \<and> distinct c"
    by (rule conjunct2 [OF conjunct2])
  have "[''c'', ''a'', ''d''] \<in> set (permutations [''a'', ''b'', ''c'', ''d''] 3)"
    unfolding perms by simp
  moreover have "(3::nat) \<in> {1..min (length (query_fields spec_query query_abcd)) MAX_INDEX_FIELDS}"
    unfolding f by (simp add: MAX_INDEX_FIELDS_def)
  ultimately have 1: "[''c'', ''a'', ''d''] \<in> ?C"
    unfolding eq using q f by (intro UN_I [of query_abcd] UN_I [of 3]) simp_all
  have "[''d'', ''b''] \<in> set (permutations [''a'', ''b'', ''c'', ''d''] 2)"
    unfolding perms by simp
  moreover have "(2::nat) \<in> {1..min (length (query_fields spec_query query_abcd)) MAX_INDEX_FIELDS}"
    unfolding f by (simp add: MAX_INDEX_FIELDS_def)
  ultimately have 2: "[''d'', ''b''] \<in> ?C"
    unfolding eq using q f by (intro UN_I [of query_abcd] UN_I [of 2]) simp_all
  have 3: "[''a'', ''b'', ''c'', ''d''] \<notin> ?C"
  proof
    assume "[''a'', ''b'', ''c'', ''d''] \<in> ?C"
    with bound have "length [''a'', ''b'', ''c'', ''d''] \<le> 3" by blast
    then show False by simp
  qed
  have 4: "[''a'', ''a''] \<notin> ?C"
  proof
    assume "[''a'', ''a''] \<in> ?C"
    with bound have "distinct [''a'', ''a'']" by blast
    then show False by simp
  qed
  have 5: "[] \<notin> ?C"
  proof
    assume "[] \<in> ?C"
    with bound have "([] :: candidate) \<noteq> []" by blast
    then show False by simp
  qed
  from g 1 2 3 4 5 show ?thesis by (intro conjI)
qed

subsection \<open>The cost scorer and the estimate cache\<close>

lemma get_estimate_cached:
  "estimate_cache st query = Some est \<Longrightarrow> get_estimate E st query = (est, st)"
  by (simp add: get_estimate_def)

lemma get_estimate_fresh:
  "estimate_cache st query = None \<Longrightarrow>
   get_estimate E st query =
     (fst (estimate E (estimator st) query),
      st\<lparr>estimate_cache := (estimate_cache st)(query \<mapsto> fst (estimate E (estimator st) query)),
         estimator := snd (estimate E (estimator st) query),
         calls := calls st @ [(query, fst (estimate E (estimator st) query))]\<rparr>)"
  by (simp add: get_estimate_def Let_def)

lemma get_estimate_inv:
  assumes "distinct (map fst (calls st))" and "estimate_cache st = map_of (calls st)"
  shows "distinct (map fst (calls (snd (get_estimate E st query))))
       \<and> estimate_cache (snd (get_estimate E st query)) = map_of (calls (snd (get_estimate E st query)))"
proof (cases "estimate_cache st query")
  case (Some est)
  with assms show ?thesis by (simp add: get_estimate_cached)
next
  case None
  with assms(2) have notin: "query \<notin> fst ` set (calls st)"
    by (simp add: map_of_eq_None_iff)
  let ?est = "fst (estimate E (estimator st) query)"
  have "map_of (calls st @ [(query, ?est)]) = (map_of (calls st))(query \<mapsto> ?est)"
  proof
    fix q show "map_of (calls st @ [(query, ?est)]) q = ((map_of (calls st))(query \<mapsto> ?est)) q"
      using None assms(2) by (cases "q = query") (simp_all add: map_add_def split: option.split)
  qed
  with None assms notin show ?thesis by (simp add: get_estimate_fresh)
qed

lemma filter_benefit_inv:
  assumes "distinct (map fst (calls st))" and "estimate_cache st = map_of (calls st)"
  shows "distinct (map fst (calls (snd (filter_benefit Q E st query k))))
       \<and> estimate_cache (snd (filter_benefit Q E st query k)) =
           map_of (calls (snd (filter_benefit Q E st query k)))"
  using assms get_estimate_inv [OF assms] by (simp add: filter_benefit_def Let_def)

lemma sort_benefit_inv:
  assumes "distinct (map fst (calls st))" and "estimate_cache st = map_of (calls st)"
  shows "distinct (map fst (calls (snd (sort_benefit Q E st query k b))))
       \<and> estimate_cache (snd (sort_benefit Q E st query k b)) =
           map_of (calls (snd (sort_benefit Q E st query k b)))"
  using assms get_estimate_inv [OF assms] by (simp add: sort_benefit_def Let_def)

lemma score_pair_inv:
  assumes "distinct (map fst (calls st))" and "estimate_cache st = map_of (calls st)"
  shows "distinct (map fst (calls (snd (score_pair Q E st query k))))
       \<and> estimate_cache (snd (score_pair Q E st query k)) =
           map_of (calls (snd (score_pair Q E st query k)))"
proof -
  from filter_benefit_inv [OF assms, of Q E query k]
  have f: "distinct (map fst (calls (snd (filter_benefit Q E st query k))))"
    "estimate_cache (snd (filter_benefit Q E st query k)) =
           map_of (calls (snd (filter_benefit Q E st query k)))" by simp_all
  from sort_benefit_inv [OF f] show ?thesis by (simp add: score_pair_def Let_def)
qed

lemma score_row_inv:
  assumes "distinct (map fst (calls st))" and "estimate_cache st = map_of (calls st)"
    and "nq < nrows scores" and "\<forall>p \<in> set ps. fst p < length (columns scores)"
  shows "\<exists>scores' st'. score_row Q E query nq ps (scores, st) = Inr (scores', st')
       \<and> columns scores' = columns scores \<and> nrows scores' = nrows scores
       \<and> distinct (map fst (calls st')) \<and> estimate_cache st' = map_of (calls st')"
  using assms
proof (induction ps arbitrary: scores st)
  case Nil
  then show ?case by simp
next
  case (Cons p ps)
  let ?r = "score_pair Q E st query (snd p)"
  let ?scores = "scores\<lparr>loc := (\<lambda>i c. if i = nq \<and> c = columns scores ! fst p then fst ?r
                                      else loc scores i c)\<rparr>"
  from Cons.prems have iat: "iat_set scores nq (fst p) (fst ?r) = Inr ?scores"
    by (simp add: iat_set_def)
  from score_pair_inv [OF Cons.prems(1,2), of Q E query "snd p"]
  have inv: "distinct (map fst (calls (snd ?r)))" "estimate_cache (snd ?r) = map_of (calls (snd ?r))"
    by simp_all
  have "\<exists>scores' st'. score_row Q E query nq ps (?scores, snd ?r) = Inr (scores', st')
       \<and> columns scores' = columns ?scores \<and> nrows scores' = nrows ?scores
       \<and> distinct (map fst (calls st')) \<and> estimate_cache st' = map_of (calls st')"
    using Cons.prems(3,4) by (intro Cons.IH [OF inv]) simp_all
  then show ?case using iat by (simp add: Let_def)
qed

lemma in_set_enumerate_fst: "p \<in> set (enumerate 0 xs) \<Longrightarrow> fst p < length xs"
  by (auto simp add: in_set_enumerate_eq)

lemma score_rows_inv:
  assumes "distinct (map fst (calls st))" and "estimate_cache st = map_of (calls st)"
    and "\<forall>p \<in> set qs. fst p < nrows scores" and "columns scores = cs"
  shows "\<exists>scores' st'. score_rows Q E cs qs (scores, st) = Inr (scores', st')
       \<and> columns scores' = columns scores \<and> nrows scores' = nrows scores
       \<and> distinct (map fst (calls st')) \<and> estimate_cache st' = map_of (calls st')"
  using assms
proof (induction qs arbitrary: scores st)
  case Nil
  then show ?case by simp
next
  case (Cons p qs)
  have "\<forall>p \<in> set (enumerate 0 cs). fst p < length (columns scores)"
    using Cons.prems(4) by (simp add: in_set_enumerate_fst)
  with Cons.prems have "\<exists>scores' st'.
       score_row Q E (snd p) (fst p) (enumerate 0 cs) (scores, st) = Inr (scores', st')
       \<and> columns scores' = columns scores \<and> nrows scores' = nrows scores
       \<and> distinct (map fst (calls st')) \<and> estimate_cache st' = map_of (calls st')"
    by (intro score_row_inv) simp_all
  then obtain scores1 st1 where
    r: "score_row Q E (snd p) (fst p) (enumerate 0 cs) (scores, st) = Inr (scores1, st1)"
    and c: "columns scores1 = columns scores" "nrows scores1 = nrows scores"
    and inv: "distinct (map fst (calls st1))" "estimate_cache st1 = map_of (calls st1)"
    by blast
  have "\<exists>scores' st'. score_rows Q E cs qs (scores1, st1) = Inr (scores', st')
       \<and> columns scores' = columns scores1 \<and> nrows scores' = nrows scores1
       \<and> distinct (map fst (calls st')) \<and> estimate_cache st' = map_of (calls st')"
    using Cons.prems(3,4) c by (intro Cons.IH [OF inv]) simp_all
  with r c show ?case by simp
qed

lemma score_candidates_inv:
  "\<exists>scores st. score_candidates Q E est0 workload cs = Inr (scores, st)
      \<and> columns scores = cs \<and> nrows scores = length workload
      \<and> distinct (map fst (calls st)) \<and> estimate_cache st = map_of (calls st)"
proof -
  let ?st = "\<lparr>estimate_cache = Map.empty, estimator = est0, calls = []\<rparr>"
  have "\<exists>scores' st'. score_rows Q E cs (enumerate 0 workload) (DataFrame (length workload) cs, ?st)
          = Inr (scores', st')
       \<and> columns scores' = columns (DataFrame (length workload) cs)
       \<and> nrows scores' = nrows (DataFrame (length workload) cs)
       \<and> distinct (map fst (calls st')) \<and> estimate_cache st' = map_of (calls st')"
    by (intro score_rows_inv) (simp_all add: DataFrame_def in_set_enumerate_fst)
  then show ?thesis by (simp add: score_candidates_def DataFrame_def)
qed

lemma score_row_entries:
  assumes "nq < nrows scores"
    and "\<forall>p \<in> set ps. fst p < length (columns scores) \<and> snd p = columns scores ! fst p"
    and "distinct (map snd ps)"
  shows "\<exists>scores' st'. score_row Q E query nq ps (scores, st) = Inr (scores', st')
       \<and> columns scores' = columns scores \<and> nrows scores' = nrows scores
       \<and> (\<forall>i c. i \<noteq> nq \<or> c \<notin> snd ` set ps \<longrightarrow> loc scores' i c = loc scores i c)
       \<and> (\<forall>p \<in> set ps. \<exists>s. loc scores' nq (snd p) = fst (score_pair Q E s query (snd p)))"
  using assms
proof (induction ps arbitrary: scores st)
  case Nil
  then show ?case by simp
next
  case (Cons p ps)
  let ?r = "score_pair Q E st query (snd p)"
  let ?scores = "scores\<lparr>loc := (\<lambda>i c. if i = nq \<and> c = columns scores ! fst p then fst ?r
                                      else loc scores i c)\<rparr>"
  from Cons.prems have "nq < nrows scores" "fst p < length (columns scores)" by simp_all
  then have iat: "iat_set scores nq (fst p) (fst ?r) = Inr ?scores"
    by (simp add: iat_set_def)
  from Cons.prems(2) have p: "snd p = columns scores ! fst p" by simp
  from Cons.prems(3) have notin: "snd p \<notin> snd ` set ps" by simp
  have "\<exists>scores' st'. score_row Q E query nq ps (?scores, snd ?r) = Inr (scores', st')
       \<and> columns scores' = columns ?scores \<and> nrows scores' = nrows ?scores
       \<and> (\<forall>i c. i \<noteq> nq \<or> c \<notin> snd ` set ps \<longrightarrow> loc scores' i c = loc ?scores i c)
       \<and> (\<forall>p \<in> set ps. \<exists>s. loc scores' nq (snd p) = fst (score_pair Q E s query (snd p)))"
    using Cons.prems by (intro Cons.IH) simp_all
  then obtain scores' st' where
    r: "score_row Q E query nq ps (?scores, snd ?r) = Inr (scores', st')"
    and c: "columns scores' = columns scores" "nrows scores' = nrows scores"
    and u: "\<forall>i c. i \<noteq> nq \<or> c \<notin> snd ` set ps \<longrightarrow> loc scores' i c = loc ?scores i c"
    and e: "\<forall>p \<in> set ps. \<exists>s. loc scores' nq (snd p) = fst (score_pair Q E s query (snd p))"
    by auto
  have 1: "score_row Q E query nq (p # ps) (scores, st) = Inr (scores', st')"
    using iat r by (simp add: Let_def)
  have 2: "\<forall>i c. i \<noteq> nq \<or> c \<notin> snd ` set (p # ps) \<longrightarrow> loc scores' i c = loc scores i c"
    using u p by auto
  have "loc scores' nq (snd p) = fst ?r" using u notin p by simp
  then have 3: "\<forall>p' \<in> set (p # ps). \<exists>s. loc scores' nq (snd p') = fst (score_pair Q E s query (snd p'))"
    using e by auto
  from 1 2 3 c show ?case by blast
qed

lemma enumerate_columns:
  "\<forall>p \<in> set (enumerate 0 cs). fst p < length cs \<and> snd p = cs ! fst p"
  by (auto simp add: in_set_enumerate_eq)

lemma score_rows_entries:
  assumes "\<forall>p \<in> set qs. fst p < nrows scores"
    and "distinct (map fst qs)"
    and "columns scores = cs" and "distinct cs"
  shows "\<exists>scores' st'. score_rows Q E cs qs (scores, st) = Inr (scores', st')
       \<and> columns scores' = columns scores \<and> nrows scores' = nrows scores
       \<and> (\<forall>i c. i \<notin> fst ` set qs \<longrightarrow> loc scores' i c = loc scores i c)
       \<and> (\<forall>p \<in> set qs. \<forall>c \<in> set cs.
             \<exists>s. loc scores' (fst p) c = fst (score_pair Q E s (snd p) c))"
  using assms
proof (induction qs arbitrary: scores st)
  case Nil
  then show ?case by simp
next
  case (Cons p qs)
  have "\<exists>scores' st'. score_row Q E (snd p) (fst p) (enumerate 0 cs) (scores, st) = Inr (scores', st')
       \<and> columns scores' = columns scores \<and> nrows scores' = nrows scores
       \<and> (\<forall>i c. i \<noteq> fst p \<or> c \<notin> snd ` set (enumerate 0 cs) \<longrightarrow> loc scores' i c = loc scores i c)
       \<and> (\<forall>p' \<in> set (enumerate 0 cs).
             \<exists>s. loc scores' (fst p) (snd p') = fst (score_pair Q E s (snd p) (snd p')))"
    using Cons.prems enumerate_columns [of cs] by (intro score_row_entries) simp_all
  then obtain scores1 st1 where
    r: "score_row Q E (snd p) (fst p) (enumerate 0 cs) (scores, st) = Inr (scores1, st1)"
    and c1: "columns scores1 = columns scores" "nrows scores1 = nrows scores"
    and u1: "\<forall>i c. i \<noteq> fst p \<longrightarrow> loc scores1 i c = loc scores i c"
    and e1: "\<forall>p' \<in> set (enumerate 0 cs).
             \<exists>s. loc scores1 (fst p) (snd p') = fst (score_pair Q E s (snd p) (snd p'))"
    by blast
  have e1': "\<forall>c \<in> set cs. \<exists>s. loc scores1 (fst p) c = fst (score_pair Q E s (snd p) c)"
  proof
    fix c assume "c \<in> set cs"
    then have "c \<in> snd ` set (enumerate 0 cs)" by (metis map_snd_enumerate set_map)
    with e1 show "\<exists>s. loc scores1 (fst p) c = fst (score_pair Q E s (snd p) c)" by auto
  qed
  have "\<exists>scores' st'. score_rows Q E cs qs (scores1, st1) = Inr (scores', st')
       \<and> columns scores' = columns scores1 \<and> nrows scores' = nrows scores1
       \<and> (\<forall>i c. i \<notin> fst ` set qs \<longrightarrow> loc scores' i c = loc scores1 i c)
       \<and> (\<forall>p \<in> set qs. \<forall>c \<in> set cs.
             \<exists>s. loc scores' (fst p) c = fst (score_pair Q E s (snd p) c))"
    using Cons.prems c1 by (intro Cons.IH) simp_all
  then obtain scores' st' where
    r': "score_rows Q E cs qs (scores1, st1) = Inr (scores', st')"
    and c': "columns scores' = columns scores1" "nrows scores' = nrows scores1"
    and u': "\<forall>i c. i \<notin> fst ` set qs \<longrightarrow> loc scores' i c = loc scores1 i c"
    and e': "\<forall>p \<in> set qs. \<forall>c \<in> set cs.
             \<exists>s. loc scores' (fst p) c = fst (score_pair Q E s (snd p) c)"
    by blast
  from Cons.prems(2) have notin: "fst p \<notin> fst ` set qs" by simp
  have 1: "score_rows Q E cs (p # qs) (scores, st) = Inr (scores', st')"
    using r r' by simp
  have 2: "\<forall>i c. i \<notin> fst ` set (p # qs) \<longrightarrow> loc scores' i c = loc scores i c"
    using u' u1 by auto
  have "\<forall>c \<in> set cs. \<exists>s. loc scores' (fst p) c = fst (score_pair Q E s (snd p) c)"
    using e1' u' notin by simp
  with e' have 3: "\<forall>p' \<in> set (p # qs). \<forall>c \<in> set cs.
             \<exists>s. loc scores' (fst p') c = fst (score_pair Q E s (snd p') c)"
    by simp
  from 1 2 3 c1 c' show ?case by simp
qed

lemma score_candidates_entry:
  assumes "distinct cs" and "nq < length workload" and "k \<in> set cs"
  shows "\<exists>scores st s. score_candidates Q E est0 workload cs = Inr (scores, st)
           \<and> loc scores nq k = fst (score_pair Q E s (workload ! nq) k)"
proof -
  let ?st = "\<lparr>estimate_cache = Map.empty, estimator = est0, calls = []\<rparr>"
  let ?df = "DataFrame (length workload) cs"
  have "\<exists>scores' st'. score_rows Q E cs (enumerate 0 workload) (?df, ?st) = Inr (scores', st')
       \<and> columns scores' = columns ?df \<and> nrows scores' = nrows ?df
       \<and> (\<forall>i c. i \<notin> fst ` set (enumerate 0 workload) \<longrightarrow> loc scores' i c = loc ?df i c)
       \<and> (\<forall>p \<in> set (enumerate 0 workload). \<forall>c \<in> set cs.
             \<exists>s. loc scores' (fst p) c = fst (score_pair Q E s (snd p) c))"
    using assms(1) by (intro score_rows_entries) (auto simp add: DataFrame_def in_set_enumerate_eq)
  then obtain scores st where
    r: "score_candidates Q E est0 workload cs = Inr (scores, st)"
    and e: "\<forall>p \<in> set (enumerate 0 workload). \<forall>c \<in> set cs.
             \<exists>s. loc scores (fst p) c = fst (score_pair Q E s (snd p) c)"
    by (auto simp add: score_candidates_def)
  have "(nq, workload ! nq) \<in> set (enumerate 0 workload)"
    using assms(2) by (simp add: in_set_enumerate_eq)
  with e assms(3) have "\<exists>s. loc scores nq k = fst (score_pair Q E s (workload ! nq) k)"
    by fastforce
  with r show ?thesis by blast
qed

lemma log2_4: "log 2 4 = (2::real)"
  using log_pow_cancel [of "2::real" 2] by simp

lemma log2_8: "log 2 8 = (3::real)"
  using log_pow_cancel [of "2::real" 3] by simp

lemmas score_eval =
  score_pair_def filter_benefit_def sort_benefit_def get_estimate_def work_units_def
  IXSCAN_COST_def FETCH_COST_def SORT_COST_def Let_def

text \<open>
  Claim C1, as the code has it. When \<open>index_intersect\<close> of the query and the candidate
  has no predicate, the filter part of the benefit is 0, so the benefit is 0 if
  \<open>can_use_sort\<close> is false, and is the sort bonus
  \<open>max(1, est(q)) * log2(max(1, est(q))) * SORT_COST\<close> if it is true; this holds in
  whatever state of the cache and of the estimator the pair is scored, and so for the
  entry of the score table, computed in some state \<open>s\<close> of the pass.
\<close>

theorem neutral_index_benefit:
  assumes "length (predicates (index_intersect Q query k)) = 0"
  shows "(\<forall>s. fst (score_pair Q E s query k) =
            (if can_use_sort Q query k
             then max 1 (fst (get_estimate E s query))
                    * log 2 (max 1 (fst (get_estimate E s query))) * SORT_COST
             else 0))
     \<and> (\<forall>workload cs nq est0.
            distinct cs \<and> nq < length workload \<and> workload ! nq = query \<and> k \<in> set cs \<longrightarrow>
            (\<exists>scores st s. score_candidates Q E est0 workload cs = Inr (scores, st)
               \<and> loc scores nq k =
                   (if can_use_sort Q query k
                    then max 1 (fst (get_estimate E s query))
                           * log 2 (max 1 (fst (get_estimate E s query))) * SORT_COST
                    else 0)))"
proof -
  have pair: "fst (score_pair Q E s query k) =
            (if can_use_sort Q query k
             then max 1 (fst (get_estimate E s query))
                    * log 2 (max 1 (fst (get_estimate E s query))) * SORT_COST
             else 0)" for s
    using assms by (simp add: score_pair_def filter_benefit_def sort_benefit_def Let_def)
  have "\<exists>scores st s. score_candidates Q E est0 workload cs = Inr (scores, st)
               \<and> loc scores nq k =
                   (if can_use_sort Q query k
                    then max 1 (fst (get_estimate E s query))
                           * log 2 (max 1 (fst (get_estimate E s query))) * SORT_COST
                    else 0)"
    if a: "distinct cs \<and> nq < length workload \<and> workload ! nq = query \<and> k \<in> set cs"
    for workload cs nq est0
  proof -
    from a obtain scores st s' where
      "score_candidates Q E est0 workload cs = Inr (scores, st)"
      "loc scores nq k = fst (score_pair Q E s' query k)"
      using score_candidates_entry [of cs nq workload k Q E est0] by auto
    with pair [of s'] show ?thesis by auto
  qed
  with pair show ?thesis by blast
qed

theorem neutral_index_benefit_witness:
  "length (predicates (index_intersect spec_query query_b_limit [''a''])) = 0
   \<and> \<not> can_use_sort spec_query query_b_limit [''a'']
   \<and> fst (score_pair spec_query doubling_estimator fresh_state query_b_limit [''a'']) = 0"
proof -
  have z: "length (predicates (index_intersect spec_query query_b_limit [''a''])) = 0"
    by (simp add: example_eval)
  have s: "\<not> can_use_sort spec_query query_b_limit [''a'']"
    by (simp add: example_eval)
  from neutral_index_benefit [OF z, of doubling_estimator] z s
  show ?thesis by simp
qed

text \<open>
  Claim C1 as stated fails. The workload holds a query on \<open>a\<close> sorted by \<open>b\<close> and a query
  on \<open>b\<close>, so \<open>(b,)\<close> is a candidate. For the first query, \<open>index_intersect\<close> with \<open>(b,)\<close>
  has no predicate, yet \<open>can_use_sort\<close> holds and the benefit is the sort bonus: with
  the estimate 4 it is \<open>4 * log2(4) * 10 = 80\<close>.
\<close>

theorem sort_bonus_on_neutral_index:
  "[''b''] \<in> generate_candidates spec_query [query_a_sort_b, query_b_limit]
   \<and> length (predicates (index_intersect spec_query query_a_sort_b [''b''])) = 0
   \<and> can_use_sort spec_query query_a_sort_b [''b'']
   \<and> fst (score_pair spec_query doubling_estimator fresh_state query_a_sort_b [''b'']) = 80"
  by (simp add: generate_candidates_def add_query_candidates_def add_permutations_def
        MAX_INDEX_FIELDS_def upt_rec score_eval example_eval log2_4)

text \<open>
  The same in a whole scoring pass over that workload and the candidates \<open>(a,)\<close> and
  \<open>(b,)\<close>: the entry of the first query for \<open>(b,)\<close> is not 0. (The estimator has been
  asked once before, so the estimate is 8 and the bonus \<open>8 * log2(8) * 10\<close>.)
\<close>

lemma sort_bonus_in_score_table:
  "\<exists>scores st. score_candidates spec_query doubling_estimator 0
                   [query_a_sort_b, query_b_limit] [[''a''], [''b'']] = Inr (scores, st)
     \<and> loc scores 0 [''a''] = 960 \<and> loc scores 0 [''b''] = 240
     \<and> loc scores 1 [''a''] = 0 \<and> loc scores 1 [''b''] = 980"
  by (simp add: score_candidates_def score_eval example_eval enumerate_eq_zip upt_rec
        iat_set_def DataFrame_def log2_8)

text \<open>
  Claim C6. When the intersection has a predicate, the filter benefit is
  \<open>total_cardinality * 1.0 - units * cost\<close>, where \<open>units\<close> is \<open>work_units\<close> of the
  estimate \<open>est\<close> that \<open>get_estimate\<close> returns for the intersected sub-query. If the
  query has the limit \<open>L\<close> and \<open>is_subset\<close> holds, \<open>units\<close> is \<open>min L est\<close>, which is
  \<open>L\<close> when \<open>est\<close> exceeds \<open>L\<close>; if the query has no limit or \<open>is_subset\<close> is false,
  \<open>units\<close> is \<open>est\<close>.
\<close>

theorem limit_caps_estimate:
  assumes "length (predicates (index_intersect Q query k)) \<noteq> 0"
    and "get_estimate E st (index_intersect Q query k) = (est, st')"
  shows "filter_benefit Q E st query k =
           (get_cardinality E (estimator st') * 1.0
              - work_units Q query k est
                * (if is_covered Q query k then IXSCAN_COST else FETCH_COST), st')
       \<and> (\<forall>L. limit query = Some L \<and> is_subset Q query k \<longrightarrow>
             work_units Q query k est = min (real_of_int L) est)
       \<and> (\<forall>L. limit query = Some L \<and> is_subset Q query k \<and> real_of_int L < est \<longrightarrow>
             work_units Q query k est = real_of_int L)
       \<and> (limit query = None \<or> \<not> is_subset Q query k \<longrightarrow> work_units Q query k est = est)"
  using assms by (auto simp add: filter_benefit_def work_units_def Let_def split: option.splits)

theorem limit_caps_estimate_witness:
  "limit query_b_limit = Some 2 \<and> is_subset spec_query query_b_limit [''b'']
   \<and> get_estimate doubling_estimator fresh_state (index_intersect spec_query query_b_limit [''b''])
       = (4, \<lparr>estimate_cache = [index_intersect spec_query query_b_limit [''b''] \<mapsto> 4],
              estimator = 1,
              calls = [(index_intersect spec_query query_b_limit [''b''], 4)]\<rparr>)
   \<and> work_units spec_query query_b_limit [''b''] 4 = 2
   \<and> fst (filter_benefit spec_query doubling_estimator fresh_state query_b_limit [''b'']) = 980
   \<and> work_units spec_query query_a_sort_b [''a''] 4 = 4"
proof -
  let ?st = "\<lparr>estimate_cache = [index_intersect spec_query query_b_limit [''b''] \<mapsto> 4],
              estimator = 1,
              calls = [(index_intersect spec_query query_b_limit [''b''], 4)]\<rparr>
             :: (predicate, nat) scoring_state"
  have p: "length (predicates (index_intersect spec_query query_b_limit [''b''])) \<noteq> 0"
    by (simp add: example_eval)
  have g: "get_estimate doubling_estimator fresh_state
             (index_intersect spec_query query_b_limit [''b'']) = (4, ?st)"
    by (simp add: get_estimate_def Let_def doubling_estimator_def fresh_state_def)
  have l: "limit query_b_limit = Some 2" "is_subset spec_query query_b_limit [''b'']"
    by (simp_all add: example_eval)
  have c: "\<not> is_covered spec_query query_b_limit [''b'']"
    by (simp add: example_eval)
  have u: "work_units spec_query query_b_limit [''b''] 4 = 2"
    using limit_caps_estimate [OF p g] l by simp
  have "fst (filter_benefit spec_query doubling_estimator fresh_state query_b_limit [''b'']) = 980"
    using limit_caps_estimate [OF p g] u c
    by (simp add: FETCH_COST_def doubling_estimator_def)
  moreover have "work_units spec_query query_a_sort_b [''a''] 4 = 4"
    by (simp add: work_units_def example_eval)
  ultimately show ?thesis using l g u by simp
qed

text \<open>
  Claim C7. For a pair whose intersection has a predicate, with the state, the estimate
  and the total cardinality fixed and the estimate used in the formula positive: the
  filter benefit is \<open>total_cardinality * 1.0 - est * cost\<close> with the cost
  \<open>IXSCAN_COST\<close> when \<open>is_covered\<close> holds and \<open>FETCH_COST\<close> when it does not,
  \<open>IXSCAN_COST < FETCH_COST\<close>, and the benefit scored with \<open>is_covered\<close> true is
  strictly greater than the benefit scored with \<open>is_covered\<close> false.
\<close>

theorem covered_benefit_greater:
  assumes "length (predicates (index_intersect Q query k)) \<noteq> 0"
    and "is_covered Q query k"
    and "\<not> uncovered query k"
    and "0 < work_units Q query k (fst (get_estimate E st (index_intersect Q query k)))"
  shows "fst (score_pair (Q\<lparr>is_covered := uncovered\<rparr>) E st query k)
           < fst (score_pair Q E st query k)
     \<and> fst (filter_benefit Q E st query k) =
         get_cardinality E (estimator (snd (get_estimate E st (index_intersect Q query k)))) * 1.0
         - work_units Q query k (fst (get_estimate E st (index_intersect Q query k)))
           * IXSCAN_COST
     \<and> fst (filter_benefit (Q\<lparr>is_covered := uncovered\<rparr>) E st query k) =
         get_cardinality E (estimator (snd (get_estimate E st (index_intersect Q query k)))) * 1.0
         - work_units Q query k (fst (get_estimate E st (index_intersect Q query k)))
           * FETCH_COST
     \<and> IXSCAN_COST < FETCH_COST"
proof -
  let ?Q' = "Q\<lparr>is_covered := uncovered\<rparr>"
  let ?r = "get_estimate E st (index_intersect Q query k)"
  have w: "work_units ?Q' query k = work_units Q query k"
    by (simp add: work_units_def fun_eq_iff split: option.split)
  have f: "filter_benefit Q E st query k =
      (get_cardinality E (estimator (snd ?r)) * 1.0
         - work_units Q query k (fst ?r) * IXSCAN_COST, snd ?r)"
    using assms(1,2) by (simp add: filter_benefit_def Let_def)
  have f': "filter_benefit ?Q' E st query k =
      (get_cardinality E (estimator (snd ?r)) * 1.0
         - work_units Q query k (fst ?r) * FETCH_COST, snd ?r)"
    using assms(1,3) w by (simp add: filter_benefit_def Let_def)
  have c: "IXSCAN_COST < FETCH_COST" by (simp add: IXSCAN_COST_def FETCH_COST_def)
  with assms(4)
  have "work_units Q query k (fst ?r) * IXSCAN_COST < work_units Q query k (fst ?r) * FETCH_COST"
    by simp
  then have "fst (score_pair ?Q' E st query k) < fst (score_pair Q E st query k)"
    using f f' by (simp add: score_pair_def sort_benefit_def Let_def)
  with f f' c show ?thesis by simp
qed

theorem covered_benefit_greater_witness:
  "is_covered spec_query query_b_projected [''b'']
   \<and> fst (score_pair spec_query doubling_estimator fresh_state query_b_projected [''b'']) = 998
   \<and> fst (score_pair (spec_query\<lparr>is_covered := (\<lambda>query k. False)\<rparr>) doubling_estimator
            fresh_state query_b_projected [''b'']) = 960
   \<and> fst (score_pair (spec_query\<lparr>is_covered := (\<lambda>query k. False)\<rparr>) doubling_estimator
            fresh_state query_b_projected [''b''])
       < fst (score_pair spec_query doubling_estimator fresh_state query_b_projected [''b''])"
proof -
  have p: "length (predicates (index_intersect spec_query query_b_projected [''b''])) \<noteq> 0"
    by (simp add: example_eval)
  have c: "is_covered spec_query query_b_projected [''b'']"
    by (simp add: example_eval)
  have u: "0 < work_units spec_query query_b_projected [''b'']
                 (fst (get_estimate doubling_estimator fresh_state
                         (index_intersect spec_query query_b_projected [''b''])))"
    by (simp add: work_units_def get_estimate_def Let_def example_eval)
  have n: "\<not> (\<lambda>query k. False) query_b_projected [''b'']" by simp
  have a: "fst (score_pair spec_query doubling_estimator fresh_state query_b_projected [''b'']) = 998"
    by (simp add: score_eval example_eval)
  have b: "fst (score_pair (spec_query\<lparr>is_covered := (\<lambda>query k. False)\<rparr>) doubling_estimator
            fresh_state query_b_projected [''b'']) = 960"
    by (simp add: score_eval example_eval)
  from covered_benefit_greater [OF p c n u] a b c show ?thesis by simp
qed

text \<open>
  Claim C9. A scoring pass over the whole table returns, and in the state it ends in no
  query occurs twice in the log of the calls of \<^verbatim>\<open>estimator.estimate\<close>, and the cache
  holds for each query asked the answer logged for it, that of its one call. A request
  for a query that is in the cache returns the cached value and leaves the cache, the
  estimator and the log as they are; a request for a query that is not calls the
  estimator once, logs the call and caches the answer.
\<close>

theorem estimate_called_once_per_query:
  "(\<exists>scores st. score_candidates Q E est0 workload cs = Inr (scores, st)
        \<and> distinct (map fst (calls st))
        \<and> estimate_cache st = map_of (calls st))
   \<and> (\<forall>st query est. estimate_cache st query = Some est \<longrightarrow>
          get_estimate E st query = (est, st))
   \<and> (\<forall>st query. estimate_cache st query = None \<longrightarrow>
          fst (get_estimate E st query) = fst (estimate E (estimator st) query)
          \<and> calls (snd (get_estimate E st query)) =
              calls st @ [(query, fst (estimate E (estimator st) query))]
          \<and> estimate_cache (snd (get_estimate E st query)) query =
              Some (fst (estimate E (estimator st) query)))"
proof -
  from score_candidates_inv [of Q E est0 workload cs]
  have pass: "\<exists>scores st. score_candidates Q E est0 workload cs = Inr (scores, st)
        \<and> distinct (map fst (calls st))
        \<and> estimate_cache st = map_of (calls st)"
    by blast
  have hit: "\<forall>st query est. estimate_cache st query = Some est \<longrightarrow>
          get_estimate E st query = (est, st)"
    by (simp add: get_estimate_cached)
  have miss: "\<forall>st query. estimate_cache st query = None \<longrightarrow>
          fst (get_estimate E st query) = fst (estimate E (estimator st) query)
          \<and> calls (snd (get_estimate E st query)) =
              calls st @ [(query, fst (estimate E (estimator st) query))]
          \<and> estimate_cache (snd (get_estimate E st query)) query =
              Some (fst (estimate E (estimator st) query))"
    by (simp add: get_estimate_fresh)
  from pass hit miss show ?thesis by (intro conjI)
qed

theorem estimate_called_once_per_query_witness:
  "(\<exists>scores st. score_candidates spec_query doubling_estimator 0
                    [query_b_limit, query_b_projected] [[''b'']] = Inr (scores, st)
        \<and> calls st = [(index_intersect spec_query query_b_limit [''b''], 4)]
        \<and> loc scores 0 [''b''] = 980 \<and> loc scores 1 [''b''] = 998
        \<and> distinct (map fst (calls st))
        \<and> estimate_cache st = map_of (calls st))
   \<and> get_estimate doubling_estimator
        (fresh_state\<lparr>estimate_cache := [query_b_limit \<mapsto> 7]\<rparr>) query_b_limit
       = (7, fresh_state\<lparr>estimate_cache := [query_b_limit \<mapsto> 7]\<rparr>)"
proof -
  have e: "\<exists>scores st. score_candidates spec_query doubling_estimator 0
                    [query_b_limit, query_b_projected] [[''b'']] = Inr (scores, st)
        \<and> calls st = [(index_intersect spec_query query_b_limit [''b''], 4)]
        \<and> loc scores 0 [''b''] = 980 \<and> loc scores 1 [''b''] = 998"
    by (simp add: score_candidates_def score_eval example_eval enumerate_eq_zip upt_rec
        iat_set_def DataFrame_def)
  have c: "estimate_cache (fresh_state\<lparr>estimate_cache := [query_b_limit \<mapsto> 7]\<rparr>) query_b_limit
             = Some 7" by simp
  from estimate_called_once_per_query
    [of spec_query doubling_estimator 0 "[query_b_limit, query_b_projected]" "[[''b'']]"] e c
  show ?thesis by auto
qed

subsection \<open>The greedy selector\<close>

lemma update_row_columns: "columns (update_row v S R qi W) = columns W"
  by (simp add: update_row_def mask_negative_def subtract_best_def Let_def)




lemma fold_update_row_columns: "columns (fold (update_row v S R) qs W) = columns W"
  by (induction qs arbitrary: W) (simp_all add: update_row_columns)



lemma update_scores_columns: "columns (update_scores v S R W) = columns W"
  by (simp add: update_scores_def fold_update_row_columns)



lemma col_sum_eq: "col_sum W c = (\<Sum>i<nrows W. loc W i c)"
  by (simp add: col_sum_def interv_sum_list_conv_sum_set_nat lessThan_atLeast0)

lemma all_nonpos_iff:
  "all_nonpos W \<longleftrightarrow> (\<forall>i < nrows W. \<forall>c \<in> set (columns W). loc W i c \<le> 0)"
  by (auto simp add: all_nonpos_def list_all_iff)

lemma index0_sorted:
  assumes "s \<noteq> []"
  shows "\<exists>p. index0 (sort_values_desc s) = Inr (fst p) \<and> p \<in> set s \<and> (\<forall>q \<in> set s. snd q \<le> snd p)"
proof -
  let ?t = "sort_values_desc s"
  have ne: "?t \<noteq> []" using assms by (metis length_sort sort_values_desc_def length_0_conv)
  then obtain p ps where t: "?t = p # ps" by (cases ?t) auto
  have set: "set ?t = set s" by (simp add: sort_values_desc_def)
  have "sorted (map (\<lambda>p. - snd p) ?t)" by (simp add: sort_values_desc_def)
  with t have "\<forall>q \<in> set ps. - snd p \<le> - snd q" by simp
  with t set have "\<forall>q \<in> set s. snd q \<le> snd p" by auto
  moreover have "p \<in> set s" using t set by auto
  moreover have "index0 ?t = Inr (fst p)" using t by (simp add: index0_def)
  ultimately show ?thesis by blast
qed

lemma select_column:
  assumes "columns W \<noteq> []"
  shows "\<exists>idx. index0 (sort_values_desc (sum_axis0 W)) = Inr idx \<and> idx \<in> set (columns W)
            \<and> (\<forall>c \<in> set (columns W). col_sum W c \<le> col_sum W idx)"
proof -
  have "sum_axis0 W \<noteq> []" using assms by (simp add: sum_axis0_def)
  from index0_sorted [OF this] obtain p where
    p: "index0 (sort_values_desc (sum_axis0 W)) = Inr (fst p)" "p \<in> set (sum_axis0 W)"
       "\<forall>q \<in> set (sum_axis0 W). snd q \<le> snd p" by blast
  from p(2) have "fst p \<in> set (columns W)" "snd p = col_sum W (fst p)"
    by (auto simp add: sum_axis0_def)
  moreover have "\<forall>c \<in> set (columns W). col_sum W c \<le> snd p"
    using p(3) by (auto simp add: sum_axis0_def)
  ultimately show ?thesis using p(1) by auto
qed

lemma not_all_nonpos_columns: "\<not> all_nonpos W \<Longrightarrow> columns W \<noteq> []"
  by (auto simp add: all_nonpos_iff)

lemma iteration_break: "all_nonpos W \<Longrightarrow> iteration v S (W, R) = Inr None"
  by (simp add: iteration_def)

lemma iteration_select:
  assumes "\<not> all_nonpos W"
  shows "\<exists>idx. idx \<in> set (columns W)
           \<and> (\<forall>c \<in> set (columns W). (\<Sum>i<nrows W. loc W i c) \<le> (\<Sum>i<nrows W. loc W i idx))
           \<and> iteration v S (W, R) =
               Inr (Some (update_scores v S (R @ [idx])
                            (W\<lparr>columns := filter (\<lambda>c. c \<noteq> idx) (columns W)\<rparr>), R @ [idx]))"
proof -
  from assms have "columns W \<noteq> []" by (rule not_all_nonpos_columns)
  from select_column [OF this] obtain idx where
    idx: "index0 (sort_values_desc (sum_axis0 W)) = Inr idx" "idx \<in> set (columns W)"
         "\<forall>c \<in> set (columns W). col_sum W c \<le> col_sum W idx" by blast
  have "iteration v S (W, R) =
      Inr (Some (update_scores v S (R @ [idx])
                   (W\<lparr>columns := filter (\<lambda>c. c \<noteq> idx) (columns W)\<rparr>), R @ [idx]))"
    using assms idx(1,2) by (simp add: iteration_def drop_column_def Let_def)
  with idx(2,3) show ?thesis by (auto simp add: col_sum_eq)
qed

lemma greedy_loop_result:
  "\<exists>R'. greedy_loop v n S (W, R) = Inr (R @ R') \<and> length R' \<le> n \<and> length R' \<le> length (columns W)
        \<and> distinct R' \<and> set R' \<subseteq> set (columns W)"
proof (induction n arbitrary: W R)
  case 0
  then show ?case by simp
next
  case (Suc n)
  show ?case
  proof (cases "all_nonpos W")
    case True
    then show ?thesis by (simp add: iteration_break)
  next
    case False
    from iteration_select [OF this, of v S R] obtain idx where
      idx: "idx \<in> set (columns W)"
      and it: "iteration v S (W, R) =
               Inr (Some (update_scores v S (R @ [idx])
                            (W\<lparr>columns := filter (\<lambda>c. c \<noteq> idx) (columns W)\<rparr>), R @ [idx]))"
      by blast
    let ?W = "update_scores v S (R @ [idx]) (W\<lparr>columns := filter (\<lambda>c. c \<noteq> idx) (columns W)\<rparr>)"
    have cols: "columns ?W = filter (\<lambda>c. c \<noteq> idx) (columns W)"
      by (simp add: update_scores_columns)
    from Suc.IH [of ?W "R @ [idx]"] obtain R' where
      R': "greedy_loop v n S (?W, R @ [idx]) = Inr ((R @ [idx]) @ R')" "length R' \<le> n"
          "length R' \<le> length (columns ?W)" "distinct R'" "set R' \<subseteq> set (columns ?W)"
      by blast
    have len: "length (filter (\<lambda>c. c \<noteq> idx) (columns W)) < length (columns W)"
      using idx by (simp add: length_filter_less)
    have "greedy_loop v (Suc n) S (W, R) = Inr (R @ (idx # R'))"
      using it R'(1) by simp
    moreover have "length (idx # R') \<le> Suc n" using R'(2) by simp
    moreover have "length (idx # R') \<le> length (columns W)"
      using R'(3) len cols by simp
    moreover have "distinct (idx # R')" using R'(4,5) cols by auto
    moreover have "set (idx # R') \<subseteq> set (columns W)" using R'(5) cols idx by auto
    ultimately show ?thesis by blast
  qed
qed


lemma existing_scores_set:
  "set (existing_scores S R i) = {s. \<exists>r \<in> set R. s = loc S i r \<and> s \<noteq> 0}"
  by (auto simp add: existing_scores_def)


lemmas greedy_eval =
  select_indexes_def iteration_def all_nonpos_def sum_axis0_def col_sum_def
  sort_values_desc_def index0_def drop_column_def update_scores_def update_row_def
  mask_negative_def subtract_best_def always_view_def always_copy_def
  existing_scores_def Let_def upt_rec





text \<open>
  The table \<open>scores_neg\<close> is one that the scorer produces: for the queries on \<open>a\<close> and on
  \<open>b\<close>, the candidates \<open>(a,)\<close> and \<open>(b,)\<close>, 15 documents and the estimates 1 and 2, the
  entries are \<open>15 - 1 * 10\<close>, 0, 0 and \<open>15 - 2 * 10\<close>.
\<close>

lemma scores_neg_is_scored:
  "\<exists>scores st. score_candidates spec_query counting_estimator 0 [query_a, query_b]
                   [[''a''], [''b'']] = Inr (scores, st)
     \<and> columns scores = columns scores_neg \<and> nrows scores = nrows scores_neg
     \<and> loc scores 0 [''a''] = loc scores_neg 0 [''a'']
     \<and> loc scores 0 [''b''] = loc scores_neg 0 [''b'']
     \<and> loc scores 1 [''a''] = loc scores_neg 1 [''a'']
     \<and> loc scores 1 [''b''] = loc scores_neg 1 [''b'']"
  by (simp add: score_candidates_def score_eval example_eval enumerate_eq_zip upt_rec
        iat_set_def DataFrame_def scores_neg_def)

text \<open>
  Claim C3 fails on the code where the mask of line 213 works on a copy. On
  \<open>scores_frac\<close> the first iteration chooses \<open>(a, b)\<close>. In the first row the only chosen
  score is 90, so the claim has the entry of column \<open>(a,)\<close> set to
  \<open>max 0 (50.5 - 90) = 0\<close>. The column \<open>(a,)\<close> holds a fractional score and the other
  columns do not, so pandas hands out the row as a copy, the mask is lost, and the
  entry in the working table is \<open>50.5 - 90 = - 39.5\<close>. (The second row, with no
  non-zero chosen score, is left as it was, as the claim says.)
\<close>

theorem mask_on_copy_leaves_difference:
  "iteration always_copy scores_frac (scores_frac, []) =
     Inr (Some (update_scores always_copy scores_frac [[''a'', ''b'']]
                  (scores_frac\<lparr>columns := [[''a''], [''b'']]\<rparr>), [[''a'', ''b'']]))
   \<and> existing_scores scores_frac [[''a'', ''b'']] 0 = [90]
   \<and> max 0 (loc scores_frac 0 [''a''] - Max (set (existing_scores scores_frac [[''a'', ''b'']] 0))) = 0
   \<and> loc (update_scores always_copy scores_frac [[''a'', ''b'']]
            (scores_frac\<lparr>columns := [[''a''], [''b'']]\<rparr>)) 0 [''a''] = - 39.5
   \<and> existing_scores scores_frac [[''a'', ''b'']] 1 = []
   \<and> loc (update_scores always_copy scores_frac [[''a'', ''b'']]
            (scores_frac\<lparr>columns := [[''a''], [''b'']]\<rparr>)) 1 [''b''] = 70"
  by (simp add: greedy_eval scores_frac_def)

text \<open>
  Claim C4. An iteration stops the selector when no entry of the working table is
  positive, which is the case in particular when no column remains. Otherwise it takes
  the column that the descending sort of the column sums puts first: a remaining column
  whose sum of the entries over all rows is at least the sum of every remaining column,
  and the one column with the largest sum when there is just one. It appends this
  column to the output list, removes it from the working table and updates the table.
\<close>

theorem selection_step:
  "(all_nonpos W \<longleftrightarrow> (\<forall>i < nrows W. \<forall>c \<in> set (columns W). loc W i c \<le> 0))
   \<and> (all_nonpos W \<or> columns W = [] \<longrightarrow>
        iteration v S (W, R) = Inr None \<and> greedy_loop v n S (W, R) = Inr R)
   \<and> (\<not> all_nonpos W \<longrightarrow>
        (\<exists>idx. idx \<in> set (columns W)
           \<and> (\<forall>c \<in> set (columns W).
                 (\<Sum>i<nrows W. loc W i c) \<le> (\<Sum>i<nrows W. loc W i idx))
           \<and> iteration v S (W, R) =
               Inr (Some (update_scores v S (R @ [idx])
                            (W\<lparr>columns := filter (\<lambda>c. c \<noteq> idx) (columns W)\<rparr>),
                          R @ [idx]))
           \<and> greedy_loop v (Suc n) S (W, R) =
               greedy_loop v n S
                 (update_scores v S (R @ [idx])
                    (W\<lparr>columns := filter (\<lambda>c. c \<noteq> idx) (columns W)\<rparr>), R @ [idx])))
   \<and> (\<forall>top \<in> set (columns W).
         \<not> all_nonpos W
         \<and> (\<forall>c \<in> set (columns W).
               c \<noteq> top \<longrightarrow> (\<Sum>i<nrows W. loc W i c) < (\<Sum>i<nrows W. loc W i top))
         \<longrightarrow> iteration v S (W, R) =
               Inr (Some (update_scores v S (R @ [top])
                            (W\<lparr>columns := filter (\<lambda>c. c \<noteq> top) (columns W)\<rparr>),
                          R @ [top])))"
proof (intro conjI impI ballI)
  show "all_nonpos W \<longleftrightarrow> (\<forall>i < nrows W. \<forall>c \<in> set (columns W). loc W i c \<le> 0)"
    by (rule all_nonpos_iff)
next
  assume "all_nonpos W \<or> columns W = []"
  then have a: "all_nonpos W" using not_all_nonpos_columns by blast
  then show "iteration v S (W, R) = Inr None" by (rule iteration_break)
  then show "greedy_loop v n S (W, R) = Inr R" by (cases n) simp_all
next
  assume "\<not> all_nonpos W"
  from iteration_select [OF this, of v S R] obtain idx where
    idx: "idx \<in> set (columns W)"
      "\<forall>c \<in> set (columns W). (\<Sum>i<nrows W. loc W i c) \<le> (\<Sum>i<nrows W. loc W i idx)"
    and it: "iteration v S (W, R) =
               Inr (Some (update_scores v S (R @ [idx])
                            (W\<lparr>columns := filter (\<lambda>c. c \<noteq> idx) (columns W)\<rparr>), R @ [idx]))"
    by blast
  from it have "greedy_loop v (Suc n) S (W, R) =
               greedy_loop v n S
                 (update_scores v S (R @ [idx])
                    (W\<lparr>columns := filter (\<lambda>c. c \<noteq> idx) (columns W)\<rparr>), R @ [idx])"
    by simp
  with idx it show "\<exists>idx. idx \<in> set (columns W)
           \<and> (\<forall>c \<in> set (columns W).
                 (\<Sum>i<nrows W. loc W i c) \<le> (\<Sum>i<nrows W. loc W i idx))
           \<and> iteration v S (W, R) =
               Inr (Some (update_scores v S (R @ [idx])
                            (W\<lparr>columns := filter (\<lambda>c. c \<noteq> idx) (columns W)\<rparr>),
                          R @ [idx]))
           \<and> greedy_loop v (Suc n) S (W, R) =
               greedy_loop v n S
                 (update_scores v S (R @ [idx])
                    (W\<lparr>columns := filter (\<lambda>c. c \<noteq> idx) (columns W)\<rparr>), R @ [idx])"
    by blast
next
  fix top
  assume top: "top \<in> set (columns W)"
    and a: "\<not> all_nonpos W
         \<and> (\<forall>c \<in> set (columns W).
               c \<noteq> top \<longrightarrow> (\<Sum>i<nrows W. loc W i c) < (\<Sum>i<nrows W. loc W i top))"
  from a have "\<not> all_nonpos W" by simp
  from iteration_select [OF this, of v S R] obtain idx where
    idx: "idx \<in> set (columns W)"
      "\<forall>c \<in> set (columns W). (\<Sum>i<nrows W. loc W i c) \<le> (\<Sum>i<nrows W. loc W i idx)"
    and it: "iteration v S (W, R) =
               Inr (Some (update_scores v S (R @ [idx])
                            (W\<lparr>columns := filter (\<lambda>c. c \<noteq> idx) (columns W)\<rparr>), R @ [idx]))"
    by blast
  have "idx = top"
  proof (rule ccontr)
    assume "idx \<noteq> top"
    with a idx(1) have "(\<Sum>i<nrows W. loc W i idx) < (\<Sum>i<nrows W. loc W i top)" by simp
    moreover from idx(2) top
    have "(\<Sum>i<nrows W. loc W i top) \<le> (\<Sum>i<nrows W. loc W i idx)" by simp
    ultimately show False by simp
  qed
  with it show "iteration v S (W, R) =
               Inr (Some (update_scores v S (R @ [top])
                            (W\<lparr>columns := filter (\<lambda>c. c \<noteq> top) (columns W)\<rparr>),
                          R @ [top]))"
    by simp
qed

theorem selection_step_witness:
  "\<not> all_nonpos scores_two
   \<and> (\<Sum>i<nrows scores_two. loc scores_two i [''a'']) = 50
   \<and> (\<Sum>i<nrows scores_two. loc scores_two i [''b'']) = 70
   \<and> (\<Sum>i<nrows scores_two. loc scores_two i [''a'', ''b'']) = 90
   \<and> iteration always_view scores_two (scores_two, []) =
       Inr (Some (update_scores always_view scores_two ([] @ [[''a'', ''b'']])
                    (scores_two\<lparr>columns :=
                       filter (\<lambda>c. c \<noteq> [''a'', ''b'']) (columns scores_two)\<rparr>),
                  [] @ [[''a'', ''b'']]))
   \<and> filter (\<lambda>c. c \<noteq> [''a'', ''b'']) (columns scores_two) = [[''a''], [''b'']]
   \<and> all_nonpos (scores_two\<lparr>columns := []\<rparr>)
   \<and> iteration always_view scores_two (scores_two\<lparr>columns := []\<rparr>, [[''b'']]) = Inr None"
proof -
  have n: "\<not> all_nonpos scores_two" by (simp add: all_nonpos_def scores_two_def upt_rec)
  have s: "(\<Sum>i<nrows scores_two. loc scores_two i [''a'']) = 50"
    "(\<Sum>i<nrows scores_two. loc scores_two i [''b'']) = 70"
    "(\<Sum>i<nrows scores_two. loc scores_two i [''a'', ''b'']) = 90"
    by (simp_all add: scores_two_def lessThan_Suc eval_nat_numeral)
  have t: "[''a'', ''b''] \<in> set (columns scores_two)" by (simp add: scores_two_def)
  have m: "\<forall>c \<in> set (columns scores_two). c \<noteq> [''a'', ''b''] \<longrightarrow>
      (\<Sum>i<nrows scores_two. loc scores_two i c)
        < (\<Sum>i<nrows scores_two. loc scores_two i [''a'', ''b''])"
    unfolding s(3) by (simp add: scores_two_def lessThan_Suc eval_nat_numeral)
  have e: "all_nonpos (scores_two\<lparr>columns := []\<rparr>)"
    by (simp add: all_nonpos_def list_all_iff)
  have f: "filter (\<lambda>c. c \<noteq> [''a'', ''b'']) (columns scores_two) = [[''a''], [''b'']]"
    by (simp add: scores_two_def)
  have 1: "iteration always_view scores_two (scores_two, []) =
       Inr (Some (update_scores always_view scores_two ([] @ [[''a'', ''b'']])
                    (scores_two\<lparr>columns :=
                       filter (\<lambda>c. c \<noteq> [''a'', ''b'']) (columns scores_two)\<rparr>),
                  [] @ [[''a'', ''b'']]))"
    using selection_step [of scores_two always_view scores_two "[]" 0] t n m by blast
  have 2: "iteration always_view scores_two (scores_two\<lparr>columns := []\<rparr>, [[''b'']]) = Inr None"
    using selection_step [of "scores_two\<lparr>columns := []\<rparr>" always_view scores_two "[[''b'']]" 0] e
    by blast
  from n s f e 1 2 show ?thesis by (intro conjI)
qed

text \<open>
  Claim C5. The selector returns a list and raises nothing, whatever pandas does with
  the masks; the list has at most as many entries as there are candidates (each
  iteration that does not stop appends one, and the loop runs at most once per
  candidate), it has no duplicates, and it holds candidates only. With no query or no
  candidate the list is empty.
\<close>

theorem select_indexes_terminates:
  "(\<exists>R. select_indexes v S = Inr R \<and> length R \<le> length (columns S) \<and> distinct R
        \<and> set R \<subseteq> set (columns S))
   \<and> (nrows S = 0 \<or> columns S = [] \<longrightarrow> select_indexes v S = Inr [])"
proof
  from greedy_loop_result [of v "length (columns S)" S S "[]"]
  show "\<exists>R. select_indexes v S = Inr R \<and> length R \<le> length (columns S) \<and> distinct R
        \<and> set R \<subseteq> set (columns S)"
    by (auto simp add: select_indexes_def)
next
  show "nrows S = 0 \<or> columns S = [] \<longrightarrow> select_indexes v S = Inr []"
  proof
    assume "nrows S = 0 \<or> columns S = []"
    then have "all_nonpos S" by (auto simp add: all_nonpos_iff)
    then have "iteration v S (S, []) = Inr None" by (rule iteration_break)
    then show "select_indexes v S = Inr []"
      by (cases "length (columns S)") (simp_all add: select_indexes_def)
  qed
qed

theorem select_indexes_terminates_witness:
  "select_indexes always_view scores_two = Inr [[''a'', ''b''], [''b'']]
   \<and> select_indexes always_copy scores_two = Inr [[''a'', ''b''], [''b'']]
   \<and> select_indexes always_view (DataFrame 0 [[''a''], [''b'']]) = Inr []
   \<and> select_indexes always_view (DataFrame 2 ([] :: string list list)) = Inr []"
proof -
  have "select_indexes always_view scores_two = Inr [[''a'', ''b''], [''b'']]"
    by (simp add: greedy_eval scores_two_def)
  moreover have "select_indexes always_copy scores_two = Inr [[''a'', ''b''], [''b'']]"
    by (simp add: greedy_eval scores_two_def)
  moreover have "select_indexes always_view (DataFrame 0 [[''a''], [''b'']]) = Inr []"
    using select_indexes_terminates [of always_view "DataFrame 0 [[''a''], [''b'']]"]
    by (simp add: DataFrame_def)
  moreover have "select_indexes always_view (DataFrame 2 ([] :: string list list)) = Inr []"
    using select_indexes_terminates [of always_view "DataFrame 2 ([] :: string list list)"]
    by (simp add: DataFrame_def)
  ultimately show ?thesis by simp
qed

end
